theory Spec2Isabelle
  imports Complex_Main "HOL-Library.Monad_Syntax"
begin

section \<open>JavaScript values, promises and the event trace\<close>

text \<open>
  The values that flow through \<^verbatim>\<open>promiseEach\<close>: numbers (page offsets), strings (package
  names and versions), arrays (a page of pairs, one pair) and \<^verbatim>\<open>undefined\<close>. Numbers are
  the integers the program uses; strings are sequences of bytes (the UTF-8 form of the text).
\<close>

datatype jsval = JUndefined | JNum int | JStr string | JArr "jsval list"

text \<open>
  A promise returned by a transform is modelled by what an observer sees of it: the time it
  takes to settle (\<open>latency\<close>, so that every completion order can be expressed) and how it
  settles (\<open>Inl\<close> the rejection reason, \<open>Inr\<close> the fulfilment value). A transform is a
  function from its argument list to such a promise. A promise that never settles is not a
  value of this type: where the program can make one, the model has an optional promise and
  \<open>None\<close> stands for it.
\<close>

datatype ('e, 'a) promise = Promise (latency: nat) (outcome: "'e + 'a")

definition rejected :: "('e, 'a) promise \<Rightarrow> bool" where
  "rejected p = isl (outcome p)"

text \<open>
  What a run does over time: \<open>Invoke args\<close> when the transform is called with \<open>args\<close>,
  \<open>Settle args\<close> when the promise that call returned settles.
\<close>

datatype event = Invoke "jsval list" | Settle "jsval list"

fun is_Invoke :: "event \<Rightarrow> bool" where
  "is_Invoke (Invoke args) = True"
| "is_Invoke (Settle args) = False"

fun is_Settle :: "event \<Rightarrow> bool" where
  "is_Settle (Settle args) = True"
| "is_Settle (Invoke args) = False"

text \<open>The number of invocations that have been started and have not settled yet.\<close>

definition pending :: "event list \<Rightarrow> int" where
  "pending tr = int (length (filter is_Invoke tr)) - int (length (filter is_Settle tr))"

text \<open>The argument lists the transform was called with, in call order.\<close>

fun invoked :: "event list \<Rightarrow> jsval list list" where
  "invoked [] = []"
| "invoked (Invoke args # tr) = args # invoked tr"
| "invoked (Settle args # tr) = invoked tr"

section \<open>Array primitives\<close>

text \<open>
  \<^verbatim>\<open>Array.prototype.splice(start, deleteCount)\<close> with no inserted items: the removed
  elements and the array as it is left. A negative \<open>start\<close> counts from the end, a negative
  \<open>deleteCount\<close> removes nothing, and both are clamped to the array.
\<close>

definition splice :: "'a list \<Rightarrow> int \<Rightarrow> int \<Rightarrow> 'a list \<times> 'a list" where
  "splice xs start deleteCount =
     (let len = int (length xs);
          actualStart = (if start < 0 then max (len + start) 0 else min start len);
          actualDeleteCount = min (max deleteCount 0) (len - actualStart)
      in (take (nat actualDeleteCount) (drop (nat actualStart) xs),
          take (nat actualStart) xs @ drop (nat (actualStart + actualDeleteCount)) xs))"

text \<open>
  \<^verbatim>\<open>Array.isArray(param) ? func.apply(null, param) : func(param)\<close>: the argument list a
  parameter stands for.
\<close>

fun arguments :: "jsval \<Rightarrow> jsval list" where
  "arguments (JArr args) = args"
| "arguments param = [param]"

text \<open>
  \<^verbatim>\<open>[].concat.apply([], results)\<close>: \<^verbatim>\<open>concat\<close> spreads each argument that is an array
  (one level) and appends any other value as it is.
\<close>

fun spread :: "jsval \<Rightarrow> jsval list" where
  "spread (JArr xs) = xs"
| "spread v = [v]"

definition concat_apply :: "jsval list \<Rightarrow> jsval list" where
  "concat_apply results = concat (map spread results)"

section \<open>promiseEach\<close>

text \<open>
  \<^verbatim>\<open>Promise.all\<close>: fulfilled with the values in index order when every promise fulfils,
  rejected with the reason of the promise that rejects first in time otherwise (promises
  settling at the same time are taken in index order: \<open>sort_key\<close> is stable).
\<close>

definition promise_all :: "('e, 'a) promise list \<Rightarrow> 'e + 'a list" where
  "promise_all promises =
     (case filter rejected (sort_key latency promises) of
        [] \<Rightarrow> Inr (map (\<lambda>p. projr (outcome p)) promises)
      | p # _ \<Rightarrow> Inl (projl (outcome p)))"

text \<open>
  The settlements a chunk's join waits for, in the order they happen: the join (and with it
  the run) is over at the first rejection.
\<close>

fun until_rejected :: "(jsval list \<times> ('e, 'a) promise) list \<Rightarrow> event list" where
  "until_rejected [] = []"
| "until_rejected ((args, p) # rest) =
     Settle args # (if rejected p then [] else until_rejected rest)"

text \<open>
  The events of one chunk: \<^verbatim>\<open>params.map\<close> calls the transform on every parameter of the
  chunk, in order, before anything settles; the promises then settle by latency.
\<close>

definition chunk_events :: "jsval list list \<Rightarrow> ('e, 'a) promise list \<Rightarrow> event list" where
  "chunk_events argss promises =
     map Invoke argss @ until_rejected (sort_key (\<lambda>(args, p). latency p) (zip argss promises))"

text \<open>
  \<^verbatim>\<open>if(!maxConcurrent) maxConcurrent = 1\<close>: \<open>None\<close> is the parameter left out
  (\<^verbatim>\<open>undefined\<close>); of the integers only \<open>0\<close> is falsy.
\<close>

definition default_concurrency :: "int option \<Rightarrow> int" where
  "default_concurrency maxConcurrent =
     (case maxConcurrent of None \<Rightarrow> 1 | Some n \<Rightarrow> if n = 0 then 1 else n)"

text \<open>
  What a caller observes of a run that has ended: the array it passed, as the run left it
  (\<^verbatim>\<open>splice\<close> mutates it), the events, and the settlement of the returned promise.
\<close>

record 'e run =
  parameters_left :: "jsval list"
  events :: "event list"
  result :: "'e + jsval list"

text \<open>
  \<^verbatim>\<open>promiseEach(parameters, func, maxConcurrent)\<close>. The recursion through \<^verbatim>\<open>.then\<close> need
  not end, so the function is partial: \<open>None\<close> is a returned promise that never settles.
\<close>

partial_function (option) promiseEach ::
  "jsval list \<Rightarrow> (jsval list \<Rightarrow> ('e, jsval) promise) \<Rightarrow> int option \<Rightarrow> 'e run option" where
  "promiseEach parameters func maxConcurrent =
     (let maxConcurrent = default_concurrency maxConcurrent;
          (params, parameters) = splice parameters 0 maxConcurrent;
          promises = map (\<lambda>param. func (arguments param)) params;
          trace = chunk_events (map arguments params) promises
      in case promise_all promises of
           Inl err \<Rightarrow> Some \<lparr>parameters_left = parameters, events = trace, result = Inl err\<rparr>
         | Inr results \<Rightarrow>
             (let flatResults = concat_apply results
              in if length parameters = 0
                 then Some \<lparr>parameters_left = parameters, events = trace,
                             result = Inr flatResults\<rparr>
                 else Option.bind (promiseEach parameters func (Some maxConcurrent))
                        (\<lambda>r. Some \<lparr>parameters_left = parameters_left r,
                                   events = trace @ events r,
                                   result = (case result r of
                                               Inl err \<Rightarrow> Inl err
                                             | Inr otherResults \<Rightarrow>
                                                 Inr (flatResults @ otherResults))\<rparr>)))"

declare promiseEach.simps [code]

section \<open>Strings\<close>

text \<open>
  A string is the list of its bytes. The functions below are the parts of the JavaScript
  string library the program calls, on that representation: \<^verbatim>\<open>startsWith\<close>, \<^verbatim>\<open>indexOf\<close>
  and \<^verbatim>\<open>slice\<close> split a string at the ASCII characters \<^verbatim>\<open>@\<close> and \<^verbatim>\<open>/\<close>, where bytes and
  UTF-16 code units cut the text at the same places.
\<close>

definition digit_char :: "nat \<Rightarrow> char" where
  "digit_char d = ''0123456789'' ! d"

text \<open>The decimal form of an integer, as a template literal prints a number.\<close>

function show_nat :: "nat \<Rightarrow> string" where
  "show_nat n = (if n < 10 then [digit_char n] else show_nat (n div 10) @ [digit_char (n mod 10)])"
  by pat_completeness auto
termination
  by (relation "measure id") auto

declare show_nat.simps [simp del]

definition show_int :: "int \<Rightarrow> string" where
  "show_int i = (if i < 0 then CHR ''-'' # show_nat (nat (- i)) else show_nat (nat i))"

fun join :: "string \<Rightarrow> string list \<Rightarrow> string" where
  "join sep [] = []"
| "join sep [x] = x"
| "join sep (x # y # zs) = x @ sep @ join sep (y # zs)"

text \<open>
  \<^verbatim>\<open>`${v}`\<close>: the string a value is interpolated as. An array prints its elements joined
  by commas, an \<^verbatim>\<open>undefined\<close> element as nothing.
\<close>

fun ToString :: "jsval \<Rightarrow> string" where
  "ToString JUndefined = ''undefined''"
| "ToString (JNum n) = show_int n"
| "ToString (JStr s) = s"
| "ToString (JArr xs) = join '','' (map (\<lambda>x. if x = JUndefined then [] else ToString x) xs)"

definition startsWith :: "string \<Rightarrow> string \<Rightarrow> bool" where
  "startsWith s searchString = (take (length searchString) s = searchString)"

text \<open>\<^verbatim>\<open>s.indexOf(c)\<close>: the position of the first \<open>c\<close>, or \<open>-1\<close>.\<close>

definition indexOf :: "string \<Rightarrow> char \<Rightarrow> int" where
  "indexOf s c = (if c \<in> set s then int (length (takeWhile (\<lambda>x. x \<noteq> c) s)) else - 1)"

text \<open>
  \<^verbatim>\<open>s.slice(start, stop)\<close>; \<^verbatim>\<open>s.slice(start)\<close> is \<open>slice s start (int (length s))\<close>. Negative
  positions count from the end and every position is clamped to the string.
\<close>

definition slice :: "string \<Rightarrow> int \<Rightarrow> int \<Rightarrow> string" where
  "slice s start stop =
     (let len = int (length s);
          from = (if start < 0 then max (len + start) 0 else min start len);
          to = (if stop < 0 then max (len + stop) 0 else min stop len)
      in take (nat (to - from)) (drop (nat from) s))"

text \<open>
  \<^verbatim>\<open>encodeURIComponent\<close>: every byte of the UTF-8 form is written \<^verbatim>\<open>%XX\<close> (upper-case
  hexadecimal) except the unreserved characters: letters, digits and
  \<^verbatim>\<open>- _ . ! ~ * ' ( )\<close>. (A string that is not well-formed UTF-16 raises \<^verbatim>\<open>URIError\<close>; such
  a string has no UTF-8 form and is outside the model.)
\<close>

definition unreserved :: "char \<Rightarrow> bool" where
  "unreserved c =
     (c \<in> set (''ABCDEFGHIJKLMNOPQRSTUVWXYZabcdefghijklmnopqrstuvwxyz0123456789-_.!~*()'' @
               [CHR 0x27]))"

definition hex_digit :: "nat \<Rightarrow> char" where
  "hex_digit d = ''0123456789ABCDEF'' ! d"

definition percent_encode :: "char \<Rightarrow> string" where
  "percent_encode c = [CHR ''%'', hex_digit (of_char c div 16), hex_digit (of_char c mod 16)]"

definition encodeURIComponent :: "string \<Rightarrow> string" where
  "encodeURIComponent s = concat (map (\<lambda>c. if unreserved c then [c] else percent_encode c) s)"

text \<open>
  The replacement text of \<^verbatim>\<open>String.prototype.replace\<close> for a pattern without capture
  groups: in the replacement string \<^verbatim>\<open>$$\<close> stands for \<^verbatim>\<open>$\<close>, \<^verbatim>\<open>$&\<close> for the matched text,
  \<^verbatim>\<open>$\<close> followed by a backquote (\<open>0x60\<close>) for the text before the match and \<^verbatim>\<open>$'\<close>
  (\<open>0x27\<close>) for the text after it; everything else is copied.
\<close>

fun get_substitution :: "string \<Rightarrow> string \<Rightarrow> string \<Rightarrow> string \<Rightarrow> string" where
  "get_substitution matched preceding following [] = []"
| "get_substitution matched preceding following [c] = [c]"
| "get_substitution matched preceding following (c # d # t) =
     (if c = CHR ''$'' \<and> d = CHR ''$''
      then CHR ''$'' # get_substitution matched preceding following t
      else if c = CHR ''$'' \<and> d = CHR ''&''
      then matched @ get_substitution matched preceding following t
      else if c = CHR ''$'' \<and> d = CHR 0x60
      then preceding @ get_substitution matched preceding following t
      else if c = CHR ''$'' \<and> d = CHR 0x27
      then following @ get_substitution matched preceding following t
      else c # get_substitution matched preceding following (d # t))"

text \<open>
  \<^verbatim>\<open>s.replace(/^pattern/, replacement)\<close> for a pattern that is literal text: the pattern is
  anchored, so only a match at position 0 is replaced.
\<close>

definition replace_leading :: "string \<Rightarrow> string \<Rightarrow> string \<Rightarrow> string" where
  "replace_leading s pattern replacement =
     (if startsWith s pattern
      then get_substitution pattern [] (drop (length pattern) s) replacement @
           drop (length pattern) s
      else s)"

section \<open>httpsGetAsync\<close>

text \<open>\<^verbatim>\<open>new Error(message)\<close>.\<close>

datatype error = Error string

text \<open>
  What \<^verbatim>\<open>https.get\<close> is given: a URL string, or an options object whose \<^verbatim>\<open>hostname\<close> and
  \<^verbatim>\<open>path\<close> properties may be absent.
\<close>

datatype request =
  Url string
| Options (hostname: "string option") (path: "string option")
    (headers: "(string \<times> string) list")

text \<open>
  \<^verbatim>\<open>options.hostname\<close> and \<^verbatim>\<open>options.path\<close>: a property that is not there reads as
  \<^verbatim>\<open>undefined\<close> (\<open>None\<close>), and a string primitive has neither property.
\<close>

fun property_hostname :: "request \<Rightarrow> string option" where
  "property_hostname (Url u) = None"
| "property_hostname (Options h p hs) = h"

fun property_path :: "request \<Rightarrow> string option" where
  "property_path (Url u) = None"
| "property_path (Options h p hs) = p"

fun interpolate :: "string option \<Rightarrow> string" where
  "interpolate None = ''undefined''"
| "interpolate (Some s) = s"

record response =
  statusCode :: int
  body :: string

text \<open>
  The world outside the program: the registry's answer to a request and the time it takes,
  the time a body takes to stream, the gzip decoder (\<open>Inl\<close> its stream error), the matches
  of the scraping regular expression in a page, in order, as (name, version) pairs (groups 2
  and 3), and the entries (header name, content) of a tar archive (\<open>Inl\<close> the extractor's
  error). A request that never gets a response is outside the model.
\<close>

record env =
  https_get :: "request \<Rightarrow> nat \<times> response"
  stream_time :: "string \<Rightarrow> nat"
  gunzip :: "string \<Rightarrow> error + string"
  page_matches :: "string \<Rightarrow> (string \<times> string) list"
  untar :: "string \<Rightarrow> error + (string \<times> string) list"

definition httpsGetAsync :: "env \<Rightarrow> request \<Rightarrow> (error, response) promise" where
  "httpsGetAsync env options =
     (let (t, response) = https_get env options
      in Promise t
           (if statusCode response \<noteq> 200
            then Inl (Error (''GET '' @ interpolate (property_hostname options) @
                             interpolate (property_path options) @
                             '' returned '' @ show_int (statusCode response)))
            else Inr response))"

text \<open>
  \<^verbatim>\<open>p.then(k)\<close> where \<open>k\<close> returns a promise: a rejection of \<open>p\<close> passes through, a
  fulfilment starts \<open>k\<close>.
\<close>

definition and_then ::
  "('e, 'a) promise \<Rightarrow> ('a \<Rightarrow> ('e, 'b) promise) \<Rightarrow> ('e, 'b) promise" where
  "and_then p k =
     (case outcome p of
        Inl err \<Rightarrow> Promise (latency p) (Inl err)
      | Inr v \<Rightarrow> (let q = k v in Promise (latency p + latency q) (outcome q)))"

text \<open>The \<open>i\<close>-th argument of a call; a missing argument is \<^verbatim>\<open>undefined\<close>.\<close>

fun argument :: "jsval list \<Rightarrow> nat \<Rightarrow> jsval" where
  "argument [] i = JUndefined"
| "argument (a # args) 0 = a"
| "argument (a # args) (Suc i) = argument args i"

section \<open>scrapeMostDepended\<close>

text \<open>
  The callback of \<^verbatim>\<open>.then\<close>: the promise made around the gunzip stream, \<open>None\<close> when that
  promise never settles. An error of the stream rejects it. \<^verbatim>\<open>buffer\<close> is declared without
  a value and every \<^verbatim>\<open>data\<close> chunk is appended with \<^verbatim>\<open>+=\<close>, so after some data the text
  the regular expression scans starts with \<^verbatim>\<open>undefined\<close>, and the promise is fulfilled with
  the array of \<^verbatim>\<open>[name, version]\<close> pairs. A stream that ends without data (the body
  decompresses to nothing) leaves \<^verbatim>\<open>buffer\<close> undefined: \<^verbatim>\<open>buffer.toString\<close> throws inside the
  \<^verbatim>\<open>end\<close> handler, neither \<^verbatim>\<open>resolve\<close> nor \<^verbatim>\<open>reject\<close> is called and the promise stays
  pending (what the uncaught exception does to the process is outside the model).
\<close>

definition scrape_response :: "env \<Rightarrow> response \<Rightarrow> (error, jsval) promise option" where
  "scrape_response env response =
     (case gunzip env (body response) of
        Inl err \<Rightarrow> Some (Promise (stream_time env (body response)) (Inl err))
      | Inr text \<Rightarrow>
          if text = [] then None
          else (let page = ''undefined'' @ text;
                    mostDepended = map (\<lambda>(name, version). JArr [JStr name, JStr version])
                                     (page_matches env page)
                in Some (Promise (stream_time env (body response)) (Inr (JArr mostDepended)))))"

text \<open>
  The promise of \<^verbatim>\<open>scrapeMostDepended(offset)\<close>, called with the argument list \<open>args\<close>;
  \<open>None\<close> is a promise that never settles.
\<close>

definition scrapeMostDepended :: "env \<Rightarrow> jsval list \<Rightarrow> (error, jsval) promise option" where
  "scrapeMostDepended env args =
     (let offset = argument args 0;
          options = Options (Some ''www.npmjs.com'')
                      (Some (''/browse/depended?offset='' @ ToString offset))
                      [(''accept-encoding'', ''gzip,deflate'')];
          fetched = httpsGetAsync env options
      in case outcome fetched of
           Inl err \<Rightarrow> Some (Promise (latency fetched) (Inl err))
         | Inr response \<Rightarrow>
             map_option (\<lambda>q. Promise (latency fetched + latency q) (outcome q))
               (scrape_response env response))"

section \<open>downloadAndExtractPackage\<close>

text \<open>The URL the archive is fetched from: \<open>org\<close> and \<open>name\<close> as the function computes them.\<close>

definition tarball_url :: "string \<Rightarrow> string \<Rightarrow> string" where
  "tarball_url pkg version =
     (let (org, name) =
            (if startsWith pkg ''@''
             then (let index = indexOf pkg (CHR ''/'') + 1
                   in (slice pkg 0 index, slice pkg index (int (length pkg))))
             else ([], pkg))
      in ''https://registry.npmjs.org/'' @ org @ name @ ''/-/'' @ name @ ''-'' @ version @
         ''.tgz'')"

text \<open>
  The \<^verbatim>\<open>map\<close> callback given to \<^verbatim>\<open>tar.extract\<close>:
  \<^verbatim>\<open>header.name = header.name.replace(/^package/, folderName)\<close>.
\<close>

definition map_header :: "string \<Rightarrow> string \<Rightarrow> string" where
  "map_header folderName name = replace_leading name ''package'' folderName"

text \<open>
  \<^verbatim>\<open>response.pipe(unzip).pipe(untar)\<close>: the error of the first stage that fails, or the
  entries of the archive as the extractor writes them, each under the name the \<^verbatim>\<open>map\<close>
  callback returned for it.
\<close>

definition unpack :: "env \<Rightarrow> string \<Rightarrow> string \<Rightarrow> error + (string \<times> string) list" where
  "unpack env folderName compressed =
     (case gunzip env compressed of
        Inl err \<Rightarrow> Inl err
      | Inr tarball \<Rightarrow>
          (case untar env tarball of
             Inl err \<Rightarrow> Inl err
           | Inr entries \<Rightarrow>
               Inr (map (\<lambda>(name, content). (map_header folderName name, content)) entries)))"

text \<open>
  The callback of \<^verbatim>\<open>.then\<close>: the promise made around the two streams, rejected with a
  stream's error and resolved with \<open>pkg\<close> when the extractor has finished.
\<close>

definition extract_response :: "env \<Rightarrow> string \<Rightarrow> response \<Rightarrow> (error, jsval) promise" where
  "extract_response env pkg response =
     Promise (stream_time env (body response))
       (case unpack env (encodeURIComponent pkg) (body response) of
          Inl err \<Rightarrow> Inl err
        | Inr entries \<Rightarrow> Inr (JStr pkg))"

text \<open>
  What a call of \<^verbatim>\<open>downloadAndExtractPackage\<close> does: the promise it returns, and the entries
  it has extracted, under the names they were given, when the archive was unpacked to its end
  (\<open>None\<close> otherwise: what a failed call has written is not modelled).
\<close>

record archive_call =
  returned :: "(error, jsval) promise"
  extracted :: "(string \<times> string) list option"

text \<open>
  \<^verbatim>\<open>downloadAndExtractPackage(pkg, version)\<close>, called with the argument list \<open>args\<close>. A
  \<open>pkg\<close> that is not a string makes \<^verbatim>\<open>pkg.startsWith\<close> throw; the pipeline only passes the
  string pairs the scraper produced.
\<close>

definition downloadAndExtractPackage :: "env \<Rightarrow> jsval list \<Rightarrow> archive_call" where
  "downloadAndExtractPackage env args =
     (case argument args 0 of
        JStr pkg \<Rightarrow>
          (let folderName = encodeURIComponent pkg;
               fetched = httpsGetAsync env (Url (tarball_url pkg (ToString (argument args 1))))
           in \<lparr>returned = and_then fetched (extract_response env pkg),
               extracted =
                 (case outcome fetched of
                    Inl err \<Rightarrow> None
                  | Inr response \<Rightarrow>
                      (case unpack env folderName (body response) of
                         Inl err \<Rightarrow> None
                       | Inr entries \<Rightarrow> Some entries))\<rparr>)
      | _ \<Rightarrow> \<lparr>returned = Promise 0 (Inl (Error ''TypeError: pkg.startsWith is not a function'')),
               extracted = None\<rparr>)"

text \<open>
  Modelled from the spec: the extractor (the tar-fs library, not among the sources) writes
  each entry below the directory it is given, \<^verbatim>\<open>./packages\<close>, at the name the \<^verbatim>\<open>map\<close>
  callback returned. This is the path an entry named \<open>name\<close> of the archive of \<open>pkg\<close> is
  written to when the mapped name is a plain relative path (no \<^verbatim>\<open>.\<close> or \<^verbatim>\<open>..\<close> segment,
  which the extractor would resolve).
\<close>

definition extracted_path :: "string \<Rightarrow> string \<Rightarrow> string" where
  "extracted_path pkg name = ''./packages/'' @ map_header (encodeURIComponent pkg) name"

section \<open>downloadPackages\<close>

text \<open>
  \<^verbatim>\<open>for(let i = 0; i < count; i += 36) offsets.push(i)\<close>, with \<open>count\<close> an integer.
\<close>

function offsets_loop :: "int \<Rightarrow> int \<Rightarrow> int list \<Rightarrow> int list" where
  "offsets_loop i count offsets =
     (if i < count then offsets_loop (i + 36) count (offsets @ [i]) else offsets)"
  by pat_completeness auto
termination
  by (relation "measure (\<lambda>(i, count, offsets). nat (count - i))") auto

declare offsets_loop.simps [simp del]

text \<open>
  The listing stage runs \<^verbatim>\<open>promiseEach\<close> on a transform whose promise may never settle. A
  join waits for every promise of its chunk unless one of them rejects: a promise that never
  settles lets a rejection in its chunk through, and otherwise keeps the join, and with it
  the run, from ever ending. Among promises that all settle before the time \<open>horizon\<close>, a
  promise rejected at the horizon with the mark \<open>None\<close> does the same, real reasons being
  \<open>Some err\<close>: an earlier rejection wins, and otherwise the mark is what the run ends with.
\<close>

definition seen_until :: "nat \<Rightarrow> ('e, 'a) promise option \<Rightarrow> ('e option, 'a) promise" where
  "seen_until horizon p =
     (case p of
        None \<Rightarrow> Promise horizon (Inl None)
      | Some q \<Rightarrow> Promise (latency q)
                   (case outcome q of Inl err \<Rightarrow> Inl (Some err) | Inr v \<Rightarrow> Inr v))"

text \<open>A time later than every settlement among the given promises.\<close>

definition after_all :: "('e, 'a) promise option list \<Rightarrow> nat" where
  "after_all ps = Suc (sum_list (map (\<lambda>p. case p of None \<Rightarrow> 0 | Some q \<Rightarrow> latency q) ps))"

text \<open>
  What a run of \<^verbatim>\<open>downloadPackages\<close> that calls the callback leaves behind: the run of the
  listing stage, the run of the extraction stage when it was started, and what the callback
  was called with (\<open>None\<close> for \<^verbatim>\<open>callback()\<close>).
\<close>

record download =
  listing :: "error option run"
  extraction :: "error run option"
  callback_argument :: "error option"

text \<open>
  \<^verbatim>\<open>downloadPackages(count, callback)\<close>; \<open>None\<close> is a run that never calls the callback,
  because the listing stage never ends.
\<close>

definition downloadPackages :: "env \<Rightarrow> int \<Rightarrow> download option" where
  "downloadPackages env count =
     (let offsets = offsets_loop 0 count [];
          horizon = after_all (map (\<lambda>offset. scrapeMostDepended env [JNum offset]) offsets)
      in Option.bind
           (promiseEach (map JNum offsets)
              (\<lambda>args. seen_until horizon (scrapeMostDepended env args)) (Some 3))
           (\<lambda>scraped.
              case result scraped of
                Inl None \<Rightarrow> None
              | Inl (Some err) \<Rightarrow>
                  Some \<lparr>listing = scraped, extraction = None, callback_argument = Some err\<rparr>
              | Inr mostDepended \<Rightarrow>
                  (let (toBeDownloaded, mostDepended) = splice mostDepended 0 count
                   in Option.bind
                        (promiseEach toBeDownloaded
                           (\<lambda>args. returned (downloadAndExtractPackage env args)) (Some 3))
                        (\<lambda>extracted.
                           Some \<lparr>listing = scraped, extraction = Some extracted,
                                 callback_argument =
                                   (case result extracted of
                                      Inl err \<Rightarrow> Some err
                                    | Inr downloaded \<Rightarrow> None)\<rparr>))))"

section \<open>Properties of traces\<close>

text \<open>The events of the chunk \<^verbatim>\<open>promiseEach\<close> bites off: \<open>chunk_events\<close> of its calls.\<close>

definition chunk_trace :: "(jsval list \<Rightarrow> ('e, jsval) promise) \<Rightarrow> jsval list \<Rightarrow> event list" where
  "chunk_trace func params =
     chunk_events (map arguments params) (map (\<lambda>param. func (arguments param)) params)"

text \<open>The \<open>c\<close>-th chunk of size \<open>n\<close> of a list (chunks are counted from 0).\<close>

definition chunk :: "nat \<Rightarrow> nat \<Rightarrow> 'a list \<Rightarrow> 'a list" where
  "chunk n c xs = take n (drop (c * n) xs)"

text \<open>At every instant of the trace (after each of its prefixes) at most \<open>n\<close> calls are pending.\<close>

definition pending_at_most :: "nat \<Rightarrow> event list \<Rightarrow> bool" where
  "pending_at_most n tr =
     (\<forall>k\<in>{..length tr}. 0 \<le> pending (take k tr) \<and> pending (take k tr) \<le> int n)"

text \<open>
  A call that follows a settlement is the first call of a new chunk: at that instant nothing
  is pending any more.
\<close>

definition chunks_joined :: "event list \<Rightarrow> bool" where
  "chunks_joined tr =
     (\<forall>k\<in>{..<length tr - 1}. is_Settle (tr ! k) \<longrightarrow> is_Invoke (tr ! Suc k) \<longrightarrow>
        pending (take (Suc k) tr) = 0)"

section \<open>Example inputs\<close>

text \<open>
  A transform on numbers: \<open>n\<close> is fulfilled with the pair of \<open>n\<close> and its square, later
  inputs settle earlier, and \<open>7\<close> is rejected.
\<close>

definition example_output :: "jsval \<Rightarrow> jsval" where
  "example_output p = (case p of JNum n \<Rightarrow> JArr [JNum n, JNum (n * n)] | _ \<Rightarrow> JUndefined)"

definition example_transform :: "jsval list \<Rightarrow> (error, jsval) promise" where
  "example_transform args =
     (case argument args 0 of
        JNum n \<Rightarrow> Promise (nat (10 - n))
                   (if n = 7 then Inl (Error ''boom'') else Inr (example_output (JNum n)))
      | _ \<Rightarrow> Promise 0 (Inl (Error ''not a number'')))"

text \<open>
  A registry with two listing pages, on which every archive is there but the one of
  \<^verbatim>\<open>bad\<close>, which answers 404.
\<close>

definition example_env :: env where
  "example_env =
     \<lparr>https_get = (\<lambda>r. case r of
          Url u \<Rightarrow>
            (length u,
             \<lparr>statusCode = (if u = ''https://registry.npmjs.org/bad/-/bad-1.0.0.tgz''
                             then 404 else 200),
              body = u\<rparr>)
        | Options h p hs \<Rightarrow> (3, \<lparr>statusCode = 200, body = interpolate p\<rparr>)),
      stream_time = length,
      gunzip = Inr,
      page_matches = (\<lambda>b. if b = ''undefined/browse/depended?offset=0''
                           then [(''lodash'', ''4.17.0''), (''@scope/name'', ''1.2.3''),
                                 (''bad'', ''1.0.0'')]
                           else [(''react'', ''18.0.0''), (''package'', ''1.0.0'')]),
      untar = (\<lambda>t. Inr [(''package/index.js'', t)])\<rparr>"

text \<open>
  The same registry, except that every body decompresses to nothing: each listing page is an
  empty stream.
\<close>

definition empty_page_env :: env where
  "empty_page_env = example_env\<lparr>gunzip := (\<lambda>compressed. Inr [])\<rparr>"

section \<open>Lemmas: one step of promiseEach\<close>

lemma splice_head: "splice xs 0 n = (take (nat n) xs, drop (nat n) xs)"
  by (auto simp: splice_def Let_def min_def max_def)

lemma promise_all_fulfilled:
  "\<forall>p\<in>set ps. \<not> rejected p \<Longrightarrow> promise_all ps = Inr (map (\<lambda>p. projr (outcome p)) ps)"
  by (simp add: promise_all_def filter_empty_conv[THEN iffD2])

lemma promise_all_rejected:
  assumes "\<exists>p\<in>set ps. rejected p"
  shows "\<exists>p\<in>set ps. rejected p \<and> promise_all ps = Inl (projl (outcome p))"
proof -
  from assms have "filter rejected (sort_key latency ps) \<noteq> []"
    by (simp add: filter_empty_conv)
  then obtain q qs where q: "filter rejected (sort_key latency ps) = q # qs"
    by (cases "filter rejected (sort_key latency ps)") auto
  then have "q \<in> set (filter rejected (sort_key latency ps))" by simp
  then have "q \<in> set ps" "rejected q" by auto
  moreover from q have "promise_all ps = Inl (projl (outcome q))"
    by (simp add: promise_all_def)
  ultimately show ?thesis by blast
qed

lemma promise_all_Inr_fulfilled: "promise_all ps = Inr rs \<Longrightarrow> \<forall>p\<in>set ps. \<not> rejected p"
  using promise_all_rejected[of ps] by auto

lemma promise_all_Inl_member:
  assumes "promise_all ps = Inl e"
  shows "\<exists>p\<in>set ps. outcome p = Inl e"
proof -
  from assms obtain q qs where q: "filter rejected (sort_key latency ps) = q # qs"
    by (cases "filter rejected (sort_key latency ps)") (auto simp: promise_all_def)
  then have "q \<in> set (filter rejected (sort_key latency ps))" by simp
  then have "q \<in> set ps" "rejected q" by auto
  moreover from assms q have "e = projl (outcome q)" by (simp add: promise_all_def)
  ultimately show ?thesis by (auto simp: rejected_def)
qed

lemma promiseEach_Nil:
  "promiseEach [] func mc = Some \<lparr>parameters_left = [], events = [], result = Inr []\<rparr>"
  by (subst promiseEach.simps)
     (simp add: splice_head promise_all_def chunk_events_def concat_apply_def)

lemma promiseEach_step:
  "promiseEach ps func mc =
     (let m = default_concurrency mc; params = take (nat m) ps; rest = drop (nat m) ps;
          trace = chunk_trace func params
      in case promise_all (map (\<lambda>param. func (arguments param)) params) of
           Inl err \<Rightarrow> Some \<lparr>parameters_left = rest, events = trace, result = Inl err\<rparr>
         | Inr results \<Rightarrow>
             if rest = []
             then Some \<lparr>parameters_left = rest, events = trace,
                         result = Inr (concat_apply results)\<rparr>
             else Option.bind (promiseEach rest func (Some m))
                    (\<lambda>r. Some \<lparr>parameters_left = parameters_left r, events = trace @ events r,
                               result = (case result r of
                                           Inl err \<Rightarrow> Inl err
                                         | Inr otherResults \<Rightarrow>
                                             Inr (concat_apply results @ otherResults))\<rparr>))"
  by (subst promiseEach.simps) (simp add: splice_head Let_def chunk_trace_def split: sum.split)

lemma default_concurrency_pos [simp]:
  "1 \<le> n \<Longrightarrow> default_concurrency (Some (int n)) = int n"
  by (simp add: default_concurrency_def)

lemma step_rejected:
  assumes "1 \<le> n"
    and "promise_all (map (\<lambda>param. func (arguments param)) (take n ps)) = Inl e"
  shows "promiseEach ps func (Some (int n)) =
           Some \<lparr>parameters_left = drop n ps,
                 events = chunk_trace func (take n ps), result = Inl e\<rparr>"
  using assms by (subst promiseEach_step) simp

lemma step_last:
  assumes "1 \<le> n"
    and "promise_all (map (\<lambda>param. func (arguments param)) (take n ps)) = Inr rs"
    and "drop n ps = []"
  shows "promiseEach ps func (Some (int n)) =
           Some \<lparr>parameters_left = [],
                 events = chunk_trace func (take n ps), result = Inr (concat_apply rs)\<rparr>"
  using assms by (subst promiseEach_step) simp

lemma step_more:
  assumes "1 \<le> n"
    and "promise_all (map (\<lambda>param. func (arguments param)) (take n ps)) = Inr rs"
    and "drop n ps \<noteq> []"
    and "promiseEach (drop n ps) func (Some (int n)) = Some r"
  shows "promiseEach ps func (Some (int n)) =
           Some \<lparr>parameters_left = parameters_left r,
                 events = chunk_trace func (take n ps) @ events r,
                 result = (case result r of
                             Inl err \<Rightarrow> Inl err
                           | Inr otherResults \<Rightarrow> Inr (concat_apply rs @ otherResults))\<rparr>"
  using assms by (subst promiseEach_step) simp

lemma rest_shorter: "1 \<le> n \<Longrightarrow> ps \<noteq> [] \<Longrightarrow> length (drop n ps) < length ps"
  by (cases ps) auto

lemma promiseEach_returns:
  assumes n: "1 \<le> n"
  shows "\<exists>r. promiseEach ps func (Some (int n)) = Some r"
proof (induction "length ps" arbitrary: ps rule: less_induct)
  case less
  let ?params = "take n ps" and ?rest = "drop n ps"
  show ?case
  proof (cases "promise_all (map (\<lambda>param. func (arguments param)) ?params)")
    case (Inl e)
    show ?thesis using step_rejected[OF n Inl] by simp
  next
    case (Inr rs)
    show ?thesis
    proof (cases "?rest = []")
      case True
      show ?thesis using step_last[OF n Inr True] by simp
    next
      case False
      then have "ps \<noteq> []" by auto
      then have "length ?rest < length ps" using n by (rule rest_shorter[rotated])
      then obtain r where r: "promiseEach ?rest func (Some (int n)) = Some r"
        using less by blast
      show ?thesis using step_more[OF n Inr False r] by simp
    qed
  qed
qed

lemma invoked_append: "invoked (xs @ ys) = invoked xs @ invoked ys"
  by (induction xs rule: invoked.induct) auto

lemma invoked_Invokes: "invoked (map (\<lambda>x. Invoke (g x)) xs) = map g xs"
  by (induction xs) auto

lemma invoked_until_rejected: "invoked (until_rejected zs) = []"
  by (induction zs rule: until_rejected.induct) auto

lemma invoked_chunk_trace: "invoked (chunk_trace func params) = map arguments params"
  by (simp add: chunk_trace_def chunk_events_def invoked_append invoked_Invokes
      invoked_until_rejected comp_def)

lemma promiseEach_fulfilled:
  assumes n: "1 \<le> n"
    and ok: "\<forall>p\<in>set ps. outcome (func (arguments p)) = Inr (out p)"
  shows "promiseEach ps func (Some (int n)) = Some r \<Longrightarrow>
           result r = Inr (concat (map (\<lambda>p. spread (out p)) ps)) \<and> parameters_left r = []"
  using ok
proof (induction "length ps" arbitrary: ps r rule: less_induct)
  case less
  let ?params = "take n ps" and ?rest = "drop n ps"
  have params_ok: "\<forall>p\<in>set ?params. outcome (func (arguments p)) = Inr (out p)"
    using less.prems(2) by (meson in_set_takeD)
  have rest_ok: "\<forall>p\<in>set ?rest. outcome (func (arguments p)) = Inr (out p)"
    using less.prems(2) by (meson in_set_dropD)
  have "\<forall>q\<in>set (map (\<lambda>param. func (arguments param)) ?params). \<not> rejected q"
    using params_ok by (auto simp: rejected_def)
  then have all: "promise_all (map (\<lambda>param. func (arguments param)) ?params) =
                    Inr (map out ?params)"
    using params_ok by (simp add: promise_all_fulfilled comp_def)
  have flat: "concat_apply (map out ?params) = concat (map (\<lambda>p. spread (out p)) ?params)"
    by (simp add: concat_apply_def comp_def)
  show ?case
  proof (cases "?rest = []")
    case True
    then have "?params = ps" by simp
    with step_last[OF n all True] less.prems(1) flat show ?thesis by auto
  next
    case False
    then have "ps \<noteq> []" by auto
    then have shorter: "length ?rest < length ps" using n by (rule rest_shorter[rotated])
    obtain r' where r': "promiseEach ?rest func (Some (int n)) = Some r'"
      using promiseEach_returns[OF n] by blast
    from less.hyps[OF shorter r' rest_ok]
    have ih: "result r' = Inr (concat (map (\<lambda>p. spread (out p)) ?rest))"
      "parameters_left r' = []"
      by simp_all
    have "concat (map (\<lambda>p. spread (out p)) ?params) @ concat (map (\<lambda>p. spread (out p)) ?rest)
            = concat (map (\<lambda>p. spread (out p)) (?params @ ?rest))"
      by (simp only: map_append concat_append)
    then have "concat (map (\<lambda>p. spread (out p)) ?params) @
               concat (map (\<lambda>p. spread (out p)) ?rest)
            = concat (map (\<lambda>p. spread (out p)) ps)"
      by simp
    with step_more[OF n all False r'] less.prems(1) ih flat show ?thesis by auto
  qed
qed

lemma promiseEach_fails:
  assumes n: "1 \<le> n"
  shows "j < length ps \<Longrightarrow> rejected (func (arguments (ps ! j))) \<Longrightarrow>
         \<forall>i<j. \<not> rejected (func (arguments (ps ! i))) \<Longrightarrow>
         promiseEach ps func (Some (int n)) = Some r \<Longrightarrow>
         (\<exists>e. result r = Inl e \<and>
              promise_all (map (\<lambda>p. func (arguments p)) (chunk n (j div n) ps)) = Inl e) \<and>
         invoked (events r) = map arguments (take ((j div n + 1) * n) ps) \<and>
         parameters_left r = drop ((j div n + 1) * n) ps"
proof (induction "length ps" arbitrary: ps j r rule: less_induct)
  case less
  let ?params = "take n ps" and ?rest = "drop n ps"
  show ?case
  proof (cases "j < n")
    case True
    then have c: "j div n = 0" by simp
    have "ps ! j \<in> set ?params"
      using True less.prems(1) by (metis in_set_conv_nth length_take min_less_iff_conj nth_take)
    then have "\<exists>q\<in>set (map (\<lambda>p. func (arguments p)) ?params). rejected q"
      using less.prems(2) by auto
    from promise_all_rejected[OF this]
    obtain e where e: "promise_all (map (\<lambda>p. func (arguments p)) ?params) = Inl e" by blast
    from step_rejected[OF n e] less.prems(4) e c show ?thesis
      by (auto simp: invoked_chunk_trace chunk_def)
  next
    case False
    then have jn: "n \<le> j" by simp
    have "\<forall>q\<in>set (map (\<lambda>p. func (arguments p)) ?params). \<not> rejected q"
    proof
      fix q assume "q \<in> set (map (\<lambda>p. func (arguments p)) ?params)"
      then obtain i where "i < length ?params" "q = func (arguments (?params ! i))"
        by (auto simp: in_set_conv_nth)
      moreover then have "i < j" "?params ! i = ps ! i" using jn by auto
      ultimately show "\<not> rejected q" using less.prems(3) by simp
    qed
    from promise_all_fulfilled[OF this]
    obtain rs where rs: "promise_all (map (\<lambda>p. func (arguments p)) ?params) = Inr rs" by blast
    have rest: "?rest \<noteq> []" using jn less.prems(1) by simp
    then have "ps \<noteq> []" by auto
    then have shorter: "length ?rest < length ps"
      using rest_shorter[OF n] by simp
    obtain r' where r': "promiseEach ?rest func (Some (int n)) = Some r'"
      using promiseEach_returns[OF n] by blast
    have j': "j - n < length ?rest" using jn less.prems(1) by simp
    have rej': "rejected (func (arguments (?rest ! (j - n))))"
      using jn less.prems(1,2) by simp
    have ful': "\<forall>i<j - n. \<not> rejected (func (arguments (?rest ! i)))"
    proof (intro allI impI)
      fix i assume "i < j - n"
      then have "n + i < j" "?rest ! i = ps ! (n + i)" using less.prems(1) by auto
      then show "\<not> rejected (func (arguments (?rest ! i)))" using less.prems(3) by simp
    qed
    have c: "j div n = Suc ((j - n) div n)"
      using jn n by (simp add: le_div_geq)
    note ih = less.hyps[OF shorter j' rej' ful' r']
    have r: "r = \<lparr>parameters_left = parameters_left r',
                 events = chunk_trace func ?params @ events r',
                 result = (case result r' of
                             Inl err \<Rightarrow> Inl err
                           | Inr otherResults \<Rightarrow> Inr (concat_apply rs @ otherResults))\<rparr>"
      using step_more[OF n rs rest r'] less.prems(4) by simp
    from ih obtain e where e: "result r' = Inl e"
      "promise_all (map (\<lambda>p. func (arguments p)) (chunk n ((j - n) div n) ?rest)) = Inl e"
      by blast
    have "chunk n ((j - n) div n) ?rest = chunk n (j div n) ps"
      by (simp add: c add.commute chunk_def)
    moreover have "map arguments ?params @ map arguments (take (((j - n) div n + 1) * n) ?rest)
        = map arguments (take ((j div n + 1) * n) ps)"
      by (simp add: c take_add[symmetric] add.commute del: map_append flip: map_append)
    moreover have "drop (((j - n) div n + 1) * n) ?rest = drop ((j div n + 1) * n) ps"
      by (simp add: c add.commute)
    ultimately show ?thesis
      using ih e by (simp add: r invoked_append invoked_chunk_trace)
  qed
qed

lemma promiseEach_invoked:
  assumes n: "1 \<le> n"
  shows "promiseEach ps func (Some (int n)) = Some r \<Longrightarrow>
           (\<exists>k. invoked (events r) = map arguments (take k ps)) \<and>
           (\<forall>out. result r = Inr out \<longrightarrow>
              parameters_left r = [] \<and> invoked (events r) = map arguments ps)"
proof (induction "length ps" arbitrary: ps r rule: less_induct)
  case less
  let ?params = "take n ps" and ?rest = "drop n ps"
  show ?case
  proof (cases "promise_all (map (\<lambda>param. func (arguments param)) ?params)")
    case (Inl e)
    have "r = \<lparr>parameters_left = ?rest, events = chunk_trace func ?params, result = Inl e\<rparr>"
      using step_rejected[OF n Inl] less.prems by simp
    then show ?thesis by (auto simp: invoked_chunk_trace)
  next
    case (Inr rs)
    show ?thesis
    proof (cases "?rest = []")
      case True
      then have "?params = ps" by simp
      moreover have "r = \<lparr>parameters_left = [], events = chunk_trace func ?params,
                           result = Inr (concat_apply rs)\<rparr>"
        using step_last[OF n Inr True] less.prems by simp
      ultimately have "invoked (events r) = map arguments (take n ps)"
        "parameters_left r = []" "invoked (events r) = map arguments ps"
        by (simp_all add: invoked_chunk_trace)
      then show ?thesis by blast
    next
      case False
      then have "ps \<noteq> []" by auto
      then have shorter: "length ?rest < length ps" using n by (rule rest_shorter[rotated])
      obtain r' where r': "promiseEach ?rest func (Some (int n)) = Some r'"
        using promiseEach_returns[OF n] by blast
      note ih = less.hyps[OF shorter r']
      then obtain k where k: "invoked (events r') = map arguments (take k ?rest)" by blast
      have r: "r = \<lparr>parameters_left = parameters_left r',
                 events = chunk_trace func ?params @ events r',
                 result = (case result r' of
                             Inl err \<Rightarrow> Inl err
                           | Inr otherResults \<Rightarrow> Inr (concat_apply rs @ otherResults))\<rparr>"
        using step_more[OF n Inr False r'] less.prems by simp
      have "invoked (events r) = map arguments (take (n + k) ps)"
        by (simp add: r invoked_append invoked_chunk_trace k take_add)
      moreover have "\<forall>out. result r = Inr out \<longrightarrow>
              parameters_left r = [] \<and> invoked (events r) = map arguments ps"
      proof (intro allI impI)
        fix out assume "result r = Inr out"
        then obtain out' where "result r' = Inr out'" by (auto simp: r split: sum.splits)
        with ih have "parameters_left r' = []" "invoked (events r') = map arguments ?rest"
          by auto
        moreover have "map arguments ?params @ map arguments ?rest = map arguments ps"
          by (simp flip: map_append)
        ultimately show "parameters_left r = [] \<and> invoked (events r) = map arguments ps"
          by (simp add: r invoked_append invoked_chunk_trace)
      qed
      ultimately show ?thesis by blast
    qed
  qed
qed

section \<open>Lemmas: pending calls\<close>

lemma pending_append: "pending (xs @ ys) = pending xs + pending ys"
  by (simp add: pending_def)

lemma pending_Invokes: "pending (map Invoke as) = int (length as)"
  by (induction as) (auto simp: pending_def)

lemma pending_Settles: "\<forall>e\<in>set S. is_Settle e \<Longrightarrow> pending S = - int (length S)"
proof (induction S)
  case Nil
  then show ?case by (simp add: pending_def)
next
  case (Cons e S)
  then show ?case by (cases e) (auto simp: pending_def)
qed

lemma until_rejected_Settles: "\<forall>e\<in>set (until_rejected zs). is_Settle e"
  by (induction zs rule: until_rejected.induct) auto

lemma length_until_rejected: "length (until_rejected zs) \<le> length zs"
  by (induction zs rule: until_rejected.induct) auto

lemma length_until_rejected_all:
  "\<forall>z\<in>set zs. \<not> rejected (snd z) \<Longrightarrow> length (until_rejected zs) = length zs"
  by (induction zs rule: until_rejected.induct) auto

lemma block_pending_at_most:
  assumes S: "\<forall>e\<in>set S. is_Settle e" and len: "length S \<le> length as" and n: "length as \<le> n"
  shows "pending_at_most n (map Invoke as @ S)"
  unfolding pending_at_most_def
proof
  fix k
  have S': "\<forall>e\<in>set (take (k - length as) S). is_Settle e"
    using S by (meson in_set_takeD)
  have "pending (take k (map Invoke as @ S)) =
          pending (map Invoke (take k as)) + pending (take (k - length as) S)"
    by (simp add: pending_append take_map)
  also have "\<dots> = int (min (length as) k) - int (min (length S) (k - length as))"
    using pending_Settles[OF S'] by (simp add: pending_Invokes)
  finally show "0 \<le> pending (take k (map Invoke as @ S)) \<and>
                pending (take k (map Invoke as @ S)) \<le> int n"
    using len n by (auto simp: min_def)
qed

lemma block_chunks_joined:
  assumes S: "\<forall>e\<in>set S. is_Settle e"
  shows "chunks_joined (map Invoke as @ S)"
  unfolding chunks_joined_def
proof (intro ballI impI)
  fix k
  assume "k \<in> {..<length (map Invoke as @ S) - 1}"
    and st: "is_Settle ((map Invoke as @ S) ! k)"
    and iv: "is_Invoke ((map Invoke as @ S) ! Suc k)"
  then have k: "Suc k < length (map Invoke as @ S)" by auto
  have "\<not> k < length as" using st by (auto simp: nth_append)
  then have "(map Invoke as @ S) ! Suc k = S ! (Suc k - length as)" "Suc k - length as < length S"
    using k by (auto simp: nth_append)
  then have "is_Settle ((map Invoke as @ S) ! Suc k)" using S by auto
  with iv have False by (cases "(map Invoke as @ S) ! Suc k") auto
  then show "pending (take (Suc k) (map Invoke as @ S)) = 0" ..
qed

lemma pending_at_most_append:
  assumes "pending_at_most n T" and "pending T = 0" and "pending_at_most n E"
  shows "pending_at_most n (T @ E)"
  unfolding pending_at_most_def
proof
  fix k assume "k \<in> {..length (T @ E)}"
  then have k: "k \<le> length (T @ E)" by simp
  show "0 \<le> pending (take k (T @ E)) \<and> pending (take k (T @ E)) \<le> int n"
  proof (cases "k \<le> length T")
    case True
    then show ?thesis using assms(1) by (simp add: pending_at_most_def)
  next
    case False
    then have "take k (T @ E) = T @ take (k - length T) E" by simp
    moreover have "k - length T \<le> length E" using k by simp
    ultimately show ?thesis using assms(2,3) by (simp add: pending_at_most_def pending_append)
  qed
qed

lemma chunks_joined_append:
  assumes "chunks_joined T" and "pending T = 0" and "chunks_joined E"
  shows "chunks_joined (T @ E)"
  unfolding chunks_joined_def
proof (intro ballI impI)
  fix k
  assume "k \<in> {..<length (T @ E) - 1}"
    and st: "is_Settle ((T @ E) ! k)"
    and iv: "is_Invoke ((T @ E) ! Suc k)"
  then have k: "Suc k < length (T @ E)" by auto
  consider "Suc k < length T" | "Suc k = length T" | "length T \<le> k" by linarith
  then show "pending (take (Suc k) (T @ E)) = 0"
  proof cases
    case 1
    then have "k \<in> {..<length T - 1}" by auto
    with 1 show ?thesis using assms(1) st iv by (simp add: chunks_joined_def nth_append)
  next
    case 2
    then show ?thesis using assms(2) by simp
  next
    case 3
    then have "(T @ E) ! k = E ! (k - length T)" "(T @ E) ! Suc k = E ! Suc (k - length T)"
      "k - length T \<in> {..<length E - 1}"
      "take (Suc k) (T @ E) = T @ take (Suc (k - length T)) E"
      using k by (auto simp: nth_append Suc_diff_le)
    then show ?thesis using assms(2,3) st iv by (simp add: chunks_joined_def pending_append)
  qed
qed

lemma chunk_trace_bounded:
  assumes "length params \<le> n"
  shows "pending_at_most n (chunk_trace func params)" and "chunks_joined (chunk_trace func params)"
proof -
  let ?zs = "sort_key (\<lambda>(args, p). latency p)
               (zip (map arguments params) (map (\<lambda>param. func (arguments param)) params))"
  have "length (until_rejected ?zs) \<le> length (map arguments params)"
    using length_until_rejected[of ?zs] by simp
  then show "pending_at_most n (chunk_trace func params)"
    unfolding chunk_trace_def chunk_events_def
    using assms by (intro block_pending_at_most until_rejected_Settles) simp_all
  show "chunks_joined (chunk_trace func params)"
    unfolding chunk_trace_def chunk_events_def
    by (intro block_chunks_joined until_rejected_Settles)
qed

lemma chunk_trace_complete:
  assumes "promise_all (map (\<lambda>param. func (arguments param)) params) = Inr rs"
  shows "pending (chunk_trace func params) = 0"
proof -
  let ?zs = "sort_key (\<lambda>(args, p). latency p)
               (zip (map arguments params) (map (\<lambda>param. func (arguments param)) params))"
  have "\<forall>z\<in>set ?zs. \<not> rejected (snd z)"
    using promise_all_Inr_fulfilled[OF assms] by (auto dest!: set_zip_rightD)
  then have "length (until_rejected ?zs) = length params"
    by (simp add: length_until_rejected_all)
  then show ?thesis
    unfolding chunk_trace_def chunk_events_def
    by (simp add: pending_append pending_Invokes pending_Settles[OF until_rejected_Settles]
        del: map_map)
qed

lemma promiseEach_trace:
  assumes n: "1 \<le> n"
  shows "promiseEach ps func (Some (int n)) = Some r \<Longrightarrow>
           pending_at_most n (events r) \<and> chunks_joined (events r)"
proof (induction "length ps" arbitrary: ps r rule: less_induct)
  case less
  let ?params = "take n ps" and ?rest = "drop n ps"
  have len: "length ?params \<le> n" by simp
  note T = chunk_trace_bounded[OF len, of func]
  show ?case
  proof (cases "promise_all (map (\<lambda>param. func (arguments param)) ?params)")
    case (Inl e)
    show ?thesis using step_rejected[OF n Inl] less.prems T by simp
  next
    case (Inr rs)
    show ?thesis
    proof (cases "?rest = []")
      case True
      show ?thesis using step_last[OF n Inr True] less.prems T by simp
    next
      case False
      then have "ps \<noteq> []" by auto
      then have shorter: "length ?rest < length ps" using n by (rule rest_shorter[rotated])
      obtain r' where r': "promiseEach ?rest func (Some (int n)) = Some r'"
        using promiseEach_returns[OF n] by blast
      note ih = less.hyps[OF shorter r']
      show ?thesis
        using step_more[OF n Inr False r'] less.prems T ih chunk_trace_complete[OF Inr]
        by (auto intro: pending_at_most_append chunks_joined_append)
    qed
  qed
qed

lemma promiseEach_default:
  "promiseEach ps func None = promiseEach ps func (Some 1)"
  "promiseEach ps func (Some 0) = promiseEach ps func (Some 1)"
  by (simp_all add: promiseEach_step[of ps func None] promiseEach_step[of ps func "Some 0"]
      promiseEach_step[of ps func "Some 1"] default_concurrency_def)

lemma promiseEach_negative_aux:
  assumes "promiseEach ps func mc = Some r"
  shows "\<not> (ps \<noteq> [] \<and> (\<exists>m<0. mc = Some m))"
proof (rule promiseEach.raw_induct[where P = "\<lambda>ps func mc r. \<not> (ps \<noteq> [] \<and> (\<exists>m<0. mc = Some m))",
      OF _ assms], goal_cases)
  case (1 promiseEach' parameters func maxConcurrent r)
  show ?case
  proof
    assume a: "parameters \<noteq> [] \<and> (\<exists>m<0. maxConcurrent = Some m)"
    then obtain m where m: "m < 0" "maxConcurrent = Some m" by blast
    from 1(2) a m obtain r' where "promiseEach' parameters func (Some m) = Some r'"
      by (auto simp: default_concurrency_def splice_head promise_all_def
          split: Option.bind_splits)
    from 1(1)[OF this] a m show False by blast
  qed
qed

lemma promiseEach_negative:
  "m < 0 \<Longrightarrow> ps \<noteq> [] \<Longrightarrow> promiseEach ps func (Some m) = None"
  using promiseEach_negative_aux[of ps func "Some m"]
  by (cases "promiseEach ps func (Some m)") auto

section \<open>Claims about promiseEach\<close>

text \<open>
  C1. For every \<open>maxConcurrent \<ge> 1\<close>, every input array and every transform whose calls
  all fulfil, \<^verbatim>\<open>promiseEach\<close> resolves, and its result is the concatenation, in input order,
  of what the transform yields for each input on its own (an array is spread, any other
  value stands for itself). The latencies of the calls, hence their completion order, are
  arbitrary and do not occur in the result.
\<close>

theorem promiseEach_preserves_order:
  assumes "1 \<le> m"
    and "\<forall>p\<in>set parameters. outcome (func (arguments p)) = Inr (out p)"
  shows "\<exists>r. promiseEach parameters func (Some m) = Some r \<and>
             result r = Inr (concat (map (\<lambda>p. spread (out p)) parameters))"
proof -
  from assms(1) have n: "1 \<le> nat m" and m: "Some m = Some (int (nat m))" by simp_all
  obtain r where r: "promiseEach parameters func (Some (int (nat m))) = Some r"
    using promiseEach_returns[OF n] by blast
  from promiseEach_fulfilled[OF n assms(2) r] r show ?thesis
    unfolding m by blast
qed

theorem promiseEach_preserves_order_witness:
  "\<exists>r. promiseEach (map JNum [1, 2, 3, 4, 5]) example_transform (Some 2) = Some r \<and>
       result r = Inr (map JNum [1, 1, 2, 4, 3, 9, 4, 16, 5, 25])"
  using promiseEach_preserves_order[of 2 "map JNum [1, 2, 3, 4, 5]" example_transform
      example_output]
  by (simp add: example_transform_def example_output_def)

text \<open>
  C3. Let \<open>j\<close> be the first input whose call rejects; it lies in chunk \<open>j div m\<close>. The run
  rejects, with the reason \<^verbatim>\<open>Promise.all\<close> gives for that chunk, which is the unwrapped
  reason of one of the chunk's own calls (the first to reject in time), hence the reason of
  call \<open>j\<close> itself when no call of its chunk rejects differently; the transform has been
  called on the inputs of the chunks up to that one and on no later input, which stay in the
  array; and the returned promise carries no result of the earlier chunks.
\<close>

theorem promiseEach_fails_fast:
  assumes "1 \<le> m"
    and "j < length parameters"
    and "rejected (func (arguments (parameters ! j)))"
    and "\<forall>i<j. \<not> rejected (func (arguments (parameters ! i)))"
  shows "\<exists>r e. promiseEach parameters func (Some m) = Some r \<and> result r = Inl e \<and>
           promise_all (map (\<lambda>p. func (arguments p)) (chunk (nat m) (j div nat m) parameters))
             = Inl e \<and>
           (\<exists>p\<in>set (chunk (nat m) (j div nat m) parameters).
              outcome (func (arguments p)) = Inl e) \<and>
           ((\<forall>p\<in>set (chunk (nat m) (j div nat m) parameters).
               rejected (func (arguments p)) \<longrightarrow>
               outcome (func (arguments p)) = outcome (func (arguments (parameters ! j)))) \<longrightarrow>
            outcome (func (arguments (parameters ! j))) = Inl e) \<and>
           invoked (events r) = map arguments (take ((j div nat m + 1) * nat m) parameters) \<and>
           parameters_left r = drop ((j div nat m + 1) * nat m) parameters"
proof -
  from assms(1) have n: "1 \<le> nat m" and m: "Some m = Some (int (nat m))" by simp_all
  obtain r where r: "promiseEach parameters func (Some (int (nat m))) = Some r"
    using promiseEach_returns[OF n] by blast
  from promiseEach_fails[OF n assms(2,3,4) r]
  obtain e where e: "result r = Inl e"
    "promise_all (map (\<lambda>p. func (arguments p)) (chunk (nat m) (j div nat m) parameters)) = Inl e"
    and rest: "invoked (events r) = map arguments (take ((j div nat m + 1) * nat m) parameters)"
      "parameters_left r = drop ((j div nat m + 1) * nat m) parameters"
    by blast
  from promise_all_Inl_member[OF e(2)]
  have member: "\<exists>p\<in>set (chunk (nat m) (j div nat m) parameters).
                  outcome (func (arguments p)) = Inl e"
    by auto
  have only: "(\<forall>p\<in>set (chunk (nat m) (j div nat m) parameters).
               rejected (func (arguments p)) \<longrightarrow>
               outcome (func (arguments p)) = outcome (func (arguments (parameters ! j)))) \<longrightarrow>
            outcome (func (arguments (parameters ! j))) = Inl e"
  proof
    assume same: "\<forall>p\<in>set (chunk (nat m) (j div nat m) parameters).
               rejected (func (arguments p)) \<longrightarrow>
               outcome (func (arguments p)) = outcome (func (arguments (parameters ! j)))"
    from member obtain p where p: "p \<in> set (chunk (nat m) (j div nat m) parameters)"
      "outcome (func (arguments p)) = Inl e" by blast
    then have "rejected (func (arguments p))" by (simp add: rejected_def)
    with same p show "outcome (func (arguments (parameters ! j))) = Inl e" by auto
  qed
  from r e rest member only show ?thesis unfolding m by blast
qed

theorem promiseEach_fails_fast_witness:
  "\<exists>r. promiseEach (map JNum [1, 2, 3, 7, 5, 6]) example_transform (Some 2) = Some r \<and>
       result r = Inl (Error ''boom'') \<and>
       invoked (events r) = [[JNum 1], [JNum 2], [JNum 3], [JNum 7]] \<and>
       parameters_left r = [JNum 5, JNum 6]"
proof -
  have "\<forall>i<3. \<not> rejected (example_transform (arguments (map JNum [1, 2, 3, 7, 5, 6] ! i)))"
    by (simp add: numeral_3_eq_3 All_less_Suc example_transform_def rejected_def)
  moreover have "rejected (example_transform (arguments (map JNum [1, 2, 3, 7, 5, 6] ! 3)))"
    by (simp add: example_transform_def rejected_def)
  moreover have "promise_all (map (\<lambda>p. example_transform (arguments p))
                   (chunk (nat 2) (3 div nat 2) (map JNum [1, 2, 3, 7, 5, 6])))
                 = Inl (Error ''boom'')"
    by code_simp
  moreover have "(3 div nat 2 + 1) * nat 2 = 4" by code_simp
  ultimately show ?thesis
    using promiseEach_fails_fast[of 2 3 "map JNum [1, 2, 3, 7, 5, 6]" example_transform]
    by auto
qed

text \<open>
  C7. In a run with limit \<open>M \<ge> 1\<close>, after every prefix of the run's events the number of
  calls that are pending is between 0 and \<open>M\<close>, and whenever a call follows a settlement
  (the next chunk starts) no call of an earlier chunk is pending.
\<close>

theorem promiseEach_bounded_concurrency:
  assumes "1 \<le> m"
  shows "\<exists>r. promiseEach parameters func (Some m) = Some r \<and>
             pending_at_most (nat m) (events r) \<and> chunks_joined (events r)"
proof -
  from assms(1) have n: "1 \<le> nat m" and m: "Some m = Some (int (nat m))" by simp_all
  obtain r where r: "promiseEach parameters func (Some (int (nat m))) = Some r"
    using promiseEach_returns[OF n] by blast
  from promiseEach_trace[OF n r] r show ?thesis unfolding m by blast
qed

theorem promiseEach_bounded_concurrency_witness:
  "\<exists>r. promiseEach (map JNum [1, 2, 3, 4, 5]) example_transform (Some 2) = Some r \<and>
       events r = [Invoke [JNum 1], Invoke [JNum 2], Settle [JNum 2], Settle [JNum 1],
                   Invoke [JNum 3], Invoke [JNum 4], Settle [JNum 4], Settle [JNum 3],
                   Invoke [JNum 5], Settle [JNum 5]] \<and>
       pending_at_most 2 (events r) \<and> chunks_joined (events r)"
proof -
  have "promiseEach (map JNum [1, 2, 3, 4, 5]) example_transform (Some 2) =
          Some \<lparr>parameters_left = [],
                events = [Invoke [JNum 1], Invoke [JNum 2], Settle [JNum 2], Settle [JNum 1],
                   Invoke [JNum 3], Invoke [JNum 4], Settle [JNum 4], Settle [JNum 3],
                   Invoke [JNum 5], Settle [JNum 5]],
                result = Inr (map JNum [1, 1, 2, 4, 3, 9, 4, 16, 5, 25])\<rparr>"
    by code_simp
  then show ?thesis
    using promiseEach_bounded_concurrency[of 2 "map JNum [1, 2, 3, 4, 5]" example_transform]
    by auto
qed

text \<open>
  C10. For every input array and every \<open>maxConcurrent \<ge> 1\<close> the run ends (the model's
  result is \<open>Some\<close>: the recursion over chunks takes finitely many steps), and when it
  resolves the caller's array is empty. Each step bites a non-empty chunk off a non-empty
  array, which is what makes the remaining array shorter.
\<close>

theorem promiseEach_terminates:
  assumes "1 \<le> m"
  shows "(\<exists>r. promiseEach parameters func (Some m) = Some r \<and>
              (\<forall>out. result r = Inr out \<longrightarrow> parameters_left r = [])) \<and>
         (parameters \<noteq> [] \<longrightarrow>
            fst (splice parameters 0 m) \<noteq> [] \<and>
            length (snd (splice parameters 0 m)) < length parameters)"
proof -
  from assms(1) have n: "1 \<le> nat m" and m: "Some m = Some (int (nat m))" by simp_all
  obtain r where r: "promiseEach parameters func (Some (int (nat m))) = Some r"
    using promiseEach_returns[OF n] by blast
  from promiseEach_invoked[OF n r]
  have "\<forall>out. result r = Inr out \<longrightarrow> parameters_left r = []" by blast
  moreover have "parameters \<noteq> [] \<longrightarrow>
            fst (splice parameters 0 m) \<noteq> [] \<and>
            length (snd (splice parameters 0 m)) < length parameters"
    using n rest_shorter[OF n, of parameters] by (auto simp: splice_head)
  ultimately show ?thesis using r unfolding m by blast
qed

theorem promiseEach_terminates_witness:
  "(\<exists>r. promiseEach (map JNum [1, 2, 3]) example_transform (Some 2) = Some r \<and>
        result r = Inr (map JNum [1, 1, 2, 4, 3, 9]) \<and> parameters_left r = []) \<and>
   splice (map JNum [1, 2, 3]) 0 2 = ([JNum 1, JNum 2], [JNum 3])"
proof -
  have "promiseEach (map JNum [1, 2, 3]) example_transform (Some 2) =
          Some \<lparr>parameters_left = [],
                events = [Invoke [JNum 1], Invoke [JNum 2], Settle [JNum 2], Settle [JNum 1],
                          Invoke [JNum 3], Settle [JNum 3]],
                result = Inr (map JNum [1, 1, 2, 4, 3, 9])\<rparr>"
    by code_simp
  moreover have "splice (map JNum [1, 2, 3]) 0 2 = ([JNum 1, JNum 2], [JNum 3])"
    by code_simp
  ultimately show ?thesis
    using promiseEach_terminates[of 2 "map JNum [1, 2, 3]" example_transform]
    by auto
qed

text \<open>
  C8, as amended. With \<open>maxConcurrent\<close> left out, or \<open>0\<close>, a run is the run with
  \<open>maxConcurrent = 1\<close>, which ends and never has more than one call pending. A negative
  \<open>maxConcurrent\<close> is not defaulted: \<^verbatim>\<open>!maxConcurrent\<close> is false for it, \<^verbatim>\<open>splice\<close> removes
  nothing, and the run of a non-empty array never ends (the counterexample below).
\<close>

theorem promiseEach_default_concurrency:
  "promiseEach parameters func None = promiseEach parameters func (Some 1) \<and>
   promiseEach parameters func (Some 0) = promiseEach parameters func (Some 1) \<and>
   (\<exists>r. promiseEach parameters func (Some 1) = Some r \<and> pending_at_most 1 (events r))"
proof -
  obtain r where r: "promiseEach parameters func (Some (int 1)) = Some r"
    using promiseEach_returns[of 1] by blast
  from promiseEach_trace[OF _ r] r show ?thesis
    by (auto simp: promiseEach_default)
qed

theorem promiseEach_default_concurrency_witness:
  "\<exists>r. promiseEach (map JNum [1, 2]) example_transform None = Some r \<and>
       promiseEach (map JNum [1, 2]) example_transform (Some 0) = Some r \<and>
       promiseEach (map JNum [1, 2]) example_transform (Some 1) = Some r \<and>
       events r = [Invoke [JNum 1], Settle [JNum 1], Invoke [JNum 2], Settle [JNum 2]]"
proof -
  have "promiseEach (map JNum [1, 2]) example_transform (Some 1) =
          Some \<lparr>parameters_left = [],
                events = [Invoke [JNum 1], Settle [JNum 1], Invoke [JNum 2], Settle [JNum 2]],
                result = Inr (map JNum [1, 1, 2, 4])\<rparr>"
    by code_simp
  then show ?thesis
    using promiseEach_default_concurrency[of "map JNum [1, 2]" example_transform]
    by auto
qed

theorem promiseEach_negative_concurrency_counterexample:
  "promiseEach [JNum 1] example_transform (Some (- 1)) = None \<and>
   promiseEach [JNum 1] example_transform (Some 1) =
     Some \<lparr>parameters_left = [], events = [Invoke [JNum 1], Settle [JNum 1]],
           result = Inr [JNum 1, JNum 1]\<rparr>"
proof
  show "promiseEach [JNum 1] example_transform (Some (- 1)) = None"
    by (rule promiseEach_negative) simp_all
  show "promiseEach [JNum 1] example_transform (Some 1) =
     Some \<lparr>parameters_left = [], events = [Invoke [JNum 1], Settle [JNum 1]],
           result = Inr [JNum 1, JNum 1]\<rparr>"
    by code_simp
qed

section \<open>Lemmas: the pipeline\<close>

lemma offsets_loop_eq:
  "offsets_loop i count offsets =
     offsets @ map (\<lambda>k. i + 36 * int k) [0..<nat ((count - i + 35) div 36)]"
proof (induction i count offsets rule: offsets_loop.induct)
  case (1 i count offsets)
  show ?case
  proof (cases "i < count")
    case True
    then have n: "nat ((count - i + 35) div 36) = Suc (nat ((count - (i + 36) + 35) div 36))"
      by (simp add: nat_eq_iff) linarith
    have "map (\<lambda>k. i + 36 * int k) [0..<Suc (nat ((count - (i + 36) + 35) div 36))] =
            i # map (\<lambda>k. i + 36 + 36 * int k) [0..<nat ((count - (i + 36) + 35) div 36)]"
      by (simp add: upt_conv_Cons map_Suc_upt[symmetric] del: upt_Suc)
    with True 1 n show ?thesis by (subst offsets_loop.simps) simp
  next
    case False
    then have "nat ((count - i + 35) div 36) = 0" by simp
    with False show ?thesis by (subst offsets_loop.simps) simp
  qed
qed

lemma takeWhile_first:
  "c \<notin> set pre \<Longrightarrow> takeWhile (\<lambda>x. x \<noteq> c) (pre @ c # post) = pre"
  by (induction pre) auto

lemma indexOf_first:
  "c \<notin> set pre \<Longrightarrow> indexOf (pre @ c # post) c = int (length pre)"
  by (simp add: indexOf_def takeWhile_first)

lemma slice_take: "0 \<le> i \<Longrightarrow> slice s 0 i = take (nat i) s"
  by (auto simp: slice_def Let_def min_def)

lemma slice_drop: "0 \<le> i \<Longrightarrow> slice s i (int (length s)) = drop (nat i) s"
  by (auto simp: slice_def Let_def min_def)

lemma tarball_url_scoped:
  assumes "CHR ''/'' \<notin> set scope"
  shows "tarball_url (CHR ''@'' # scope @ CHR ''/'' # name) version =
           ''https://registry.npmjs.org/'' @ (CHR ''@'' # scope @ ''/'') @ name @ ''/-/'' @ name @
           ''-'' @ version @ ''.tgz''"
proof -
  let ?pkg = "CHR ''@'' # scope @ CHR ''/'' # name"
  have "indexOf ?pkg (CHR ''/'') = int (length (CHR ''@'' # scope))"
    using indexOf_first[of "CHR ''/''" "CHR ''@'' # scope" name] assms by simp
  then have index: "indexOf ?pkg (CHR ''/'') + 1 = int (length scope) + 2" by simp
  have "slice ?pkg 0 (int (length scope) + 2) = CHR ''@'' # scope @ ''/''"
    by (subst slice_take) (simp_all add: nat_add_distrib)
  moreover have "slice ?pkg (int (length scope) + 2) (int (length ?pkg)) = name"
    by (subst slice_drop) (simp_all add: nat_add_distrib)
  ultimately show ?thesis
    unfolding tarball_url_def index by (simp add: startsWith_def)
qed

lemma tarball_url_unscoped:
  "\<not> startsWith pkg ''@'' \<Longrightarrow>
     tarball_url pkg version =
       ''https://registry.npmjs.org/'' @ pkg @ ''/-/'' @ pkg @ ''-'' @ version @ ''.tgz''"
  by (simp add: tarball_url_def)

lemma single_chunk:
  assumes "1 \<le> n" and "length ps \<le> n" and "promiseEach ps func (Some (int n)) = Some r"
  shows "events r = chunk_trace func ps"
proof (cases "promise_all (map (\<lambda>param. func (arguments param)) (take n ps))")
  case (Inl e)
  from step_rejected[OF assms(1) Inl] assms(2,3) show ?thesis by simp
next
  case (Inr rs)
  from assms(2) have "drop n ps = []" by simp
  from step_last[OF assms(1) Inr this] assms(2,3) show ?thesis by simp
qed

lemma promiseEach_consumes:
  assumes n: "1 \<le> n"
  shows "promiseEach ps func (Some (int n)) = Some r \<Longrightarrow>
           \<exists>k. invoked (events r) = map arguments (take k ps) \<and> parameters_left r = drop k ps"
proof (induction "length ps" arbitrary: ps r rule: less_induct)
  case less
  let ?params = "take n ps" and ?rest = "drop n ps"
  show ?case
  proof (cases "promise_all (map (\<lambda>param. func (arguments param)) ?params)")
    case (Inl e)
    have "r = \<lparr>parameters_left = ?rest, events = chunk_trace func ?params, result = Inl e\<rparr>"
      using step_rejected[OF n Inl] less.prems by simp
    then have "invoked (events r) = map arguments (take n ps) \<and> parameters_left r = drop n ps"
      by (simp add: invoked_chunk_trace)
    then show ?thesis by blast
  next
    case (Inr rs)
    show ?thesis
    proof (cases "?rest = []")
      case True
      have "r = \<lparr>parameters_left = [], events = chunk_trace func ?params,
                 result = Inr (concat_apply rs)\<rparr>"
        using step_last[OF n Inr True] less.prems by simp
      with True have "invoked (events r) = map arguments (take n ps) \<and>
                      parameters_left r = drop n ps"
        by (simp add: invoked_chunk_trace)
      then show ?thesis by blast
    next
      case False
      then have "ps \<noteq> []" by auto
      then have shorter: "length ?rest < length ps" using n by (rule rest_shorter[rotated])
      obtain r' where r': "promiseEach ?rest func (Some (int n)) = Some r'"
        using promiseEach_returns[OF n] by blast
      from less.hyps[OF shorter r']
      obtain k where k: "invoked (events r') = map arguments (take k ?rest)"
        "parameters_left r' = drop k ?rest" by blast
      have r: "r = \<lparr>parameters_left = parameters_left r',
                 events = chunk_trace func ?params @ events r',
                 result = (case result r' of
                             Inl err \<Rightarrow> Inl err
                           | Inr otherResults \<Rightarrow> Inr (concat_apply rs @ otherResults))\<rparr>"
        using step_more[OF n Inr False r'] less.prems by simp
      have "invoked (events r) = map arguments (take (n + k) ps)"
        by (simp add: r invoked_append invoked_chunk_trace k take_add)
      moreover have "parameters_left r = drop (n + k) ps"
        by (simp add: r k add.commute)
      ultimately show ?thesis by blast
    qed
  qed
qed

lemma promiseEach_rejection_origin:
  assumes n: "1 \<le> n"
  shows "promiseEach ps func (Some (int n)) = Some r \<Longrightarrow> result r = Inl e \<Longrightarrow>
           \<exists>p\<in>set ps. outcome (func (arguments p)) = Inl e"
proof (induction "length ps" arbitrary: ps r rule: less_induct)
  case less
  let ?params = "take n ps" and ?rest = "drop n ps"
  show ?case
  proof (cases "promise_all (map (\<lambda>param. func (arguments param)) ?params)")
    case (Inl e')
    have "r = \<lparr>parameters_left = ?rest, events = chunk_trace func ?params, result = Inl e'\<rparr>"
      using step_rejected[OF n Inl] less.prems(1) by simp
    with less.prems(2) have "e' = e" by simp
    with promise_all_Inl_member[OF Inl]
    obtain p where "p \<in> set ?params" "outcome (func (arguments p)) = Inl e" by auto
    then show ?thesis by (meson in_set_takeD)
  next
    case (Inr rs)
    show ?thesis
    proof (cases "?rest = []")
      case True
      have "r = \<lparr>parameters_left = [], events = chunk_trace func ?params,
                 result = Inr (concat_apply rs)\<rparr>"
        using step_last[OF n Inr True] less.prems(1) by simp
      with less.prems(2) show ?thesis by simp
    next
      case False
      then have "ps \<noteq> []" by auto
      then have shorter: "length ?rest < length ps" using n by (rule rest_shorter[rotated])
      obtain r' where r': "promiseEach ?rest func (Some (int n)) = Some r'"
        using promiseEach_returns[OF n] by blast
      have r: "r = \<lparr>parameters_left = parameters_left r',
                 events = chunk_trace func ?params @ events r',
                 result = (case result r' of
                             Inl err \<Rightarrow> Inl err
                           | Inr otherResults \<Rightarrow> Inr (concat_apply rs @ otherResults))\<rparr>"
        using step_more[OF n Inr False r'] less.prems(1) by simp
      with less.prems(2) have "result r' = Inl e" by (auto split: sum.splits)
      from less.hyps[OF shorter r' this]
      obtain p where "p \<in> set ?rest" "outcome (func (arguments p)) = Inl e" by blast
      then show ?thesis by (meson in_set_dropD)
    qed
  qed
qed

lemma downloadPackages_stages:
  "\<exists>scraped.
     promiseEach (map JNum (offsets_loop 0 count []))
       (\<lambda>args. seen_until
          (after_all (map (\<lambda>offset. scrapeMostDepended env [JNum offset])
                        (offsets_loop 0 count [])))
          (scrapeMostDepended env args))
       (Some 3) = Some scraped \<and>
     (case result scraped of
        Inl None \<Rightarrow> downloadPackages env count = None
      | Inl (Some err) \<Rightarrow>
          downloadPackages env count =
            Some \<lparr>listing = scraped, extraction = None, callback_argument = Some err\<rparr>
      | Inr mostDepended \<Rightarrow>
          (\<exists>x. promiseEach (take (nat count) mostDepended)
                  (\<lambda>args. returned (downloadAndExtractPackage env args)) (Some 3) = Some x \<and>
               downloadPackages env count =
                 Some \<lparr>listing = scraped, extraction = Some x,
                       callback_argument =
                         (case result x of Inl err \<Rightarrow> Some err | Inr ds \<Rightarrow> None)\<rparr>))"
proof -
  let ?f = "\<lambda>args. seen_until
          (after_all (map (\<lambda>offset. scrapeMostDepended env [JNum offset])
                        (offsets_loop 0 count [])))
          (scrapeMostDepended env args)"
  obtain scraped where s:
    "promiseEach (map JNum (offsets_loop 0 count [])) ?f (Some (int 3)) = Some scraped"
    using promiseEach_returns[of 3] by auto
  show ?thesis
  proof (cases "result scraped")
    case (Inl e)
    with s show ?thesis by (cases e) (simp_all add: downloadPackages_def)
  next
    case (Inr mostDepended)
    obtain x where x:
      "promiseEach (take (nat count) mostDepended)
         (\<lambda>args. returned (downloadAndExtractPackage env args)) (Some (int 3)) = Some x"
      using promiseEach_returns[of 3] by auto
    with s Inr show ?thesis by (simp add: downloadPackages_def splice_head)
  qed
qed

lemma downloadPackages_ends:
  assumes "\<forall>offset\<in>set (offsets_loop 0 count []). scrapeMostDepended env [JNum offset] \<noteq> None"
  shows "\<exists>d. downloadPackages env count = Some d"
proof -
  let ?f = "\<lambda>args. seen_until
          (after_all (map (\<lambda>offset. scrapeMostDepended env [JNum offset])
                        (offsets_loop 0 count [])))
          (scrapeMostDepended env args)"
  obtain scraped where s:
    "promiseEach (map JNum (offsets_loop 0 count [])) ?f (Some (int 3)) = Some scraped"
    and stages: "case result scraped of
        Inl None \<Rightarrow> downloadPackages env count = None
      | Inl (Some err) \<Rightarrow>
          downloadPackages env count =
            Some \<lparr>listing = scraped, extraction = None, callback_argument = Some err\<rparr>
      | Inr mostDepended \<Rightarrow>
          (\<exists>x. promiseEach (take (nat count) mostDepended)
                  (\<lambda>args. returned (downloadAndExtractPackage env args)) (Some 3) = Some x \<and>
               downloadPackages env count =
                 Some \<lparr>listing = scraped, extraction = Some x,
                       callback_argument =
                         (case result x of Inl err \<Rightarrow> Some err | Inr ds \<Rightarrow> None)\<rparr>)"
    using downloadPackages_stages[of count env] by auto
  have "result scraped \<noteq> Inl None"
  proof
    assume "result scraped = Inl None"
    from promiseEach_rejection_origin[OF _ s this]
    have "\<exists>p\<in>set (map JNum (offsets_loop 0 count [])).
            outcome (?f (arguments p)) = Inl None" by simp
    then obtain offset where o: "offset \<in> set (offsets_loop 0 count [])"
      "outcome (?f [JNum offset]) = Inl None" by auto
    from assms o(1) obtain q where "scrapeMostDepended env [JNum offset] = Some q" by auto
    with o(2) show False
      by (cases "outcome q") (simp_all add: seen_until_def)
  qed
  with stages show ?thesis
    by (cases "result scraped") (auto split: option.splits)
qed

lemma downloadPackages_listing:
  assumes d: "downloadPackages env count = Some d"
  shows "promiseEach (map JNum (offsets_loop 0 count []))
       (\<lambda>args. seen_until
          (after_all (map (\<lambda>offset. scrapeMostDepended env [JNum offset])
                        (offsets_loop 0 count [])))
          (scrapeMostDepended env args))
       (Some (int 3)) = Some (listing d) \<and>
     (\<forall>mostDepended. result (listing d) = Inr mostDepended \<longrightarrow>
         (\<exists>x. promiseEach (take (nat count) mostDepended)
                  (\<lambda>args. returned (downloadAndExtractPackage env args)) (Some (int 3)) = Some x \<and>
             extraction d = Some x \<and>
             callback_argument d = (case result x of Inl err \<Rightarrow> Some err | Inr ds \<Rightarrow> None)))"
proof -
  let ?f = "\<lambda>args. seen_until
          (after_all (map (\<lambda>offset. scrapeMostDepended env [JNum offset])
                        (offsets_loop 0 count [])))
          (scrapeMostDepended env args)"
  obtain scraped where s:
    "promiseEach (map JNum (offsets_loop 0 count [])) ?f (Some (int 3)) = Some scraped"
    and stages: "case result scraped of
        Inl None \<Rightarrow> downloadPackages env count = None
      | Inl (Some err) \<Rightarrow>
          downloadPackages env count =
            Some \<lparr>listing = scraped, extraction = None, callback_argument = Some err\<rparr>
      | Inr mostDepended \<Rightarrow>
          (\<exists>x. promiseEach (take (nat count) mostDepended)
                  (\<lambda>args. returned (downloadAndExtractPackage env args)) (Some 3) = Some x \<and>
               downloadPackages env count =
                 Some \<lparr>listing = scraped, extraction = Some x,
                       callback_argument =
                         (case result x of Inl err \<Rightarrow> Some err | Inr ds \<Rightarrow> None)\<rparr>)"
    using downloadPackages_stages[of count env] by auto
  show ?thesis
  proof (cases "result scraped")
    case (Inl e)
    show ?thesis
    proof (cases e)
      case None
      with Inl stages d show ?thesis by simp
    next
      case (Some err)
      with Inl stages d have "d = \<lparr>listing = scraped, extraction = None,
                                     callback_argument = Some err\<rparr>" by simp
      with s Inl show ?thesis by simp
    qed
  next
    case (Inr mostDepended)
    with stages d obtain x where x:
      "promiseEach (take (nat count) mostDepended)
         (\<lambda>args. returned (downloadAndExtractPackage env args)) (Some 3) = Some x"
      "d = \<lparr>listing = scraped, extraction = Some x,
             callback_argument = (case result x of Inl err \<Rightarrow> Some err | Inr ds \<Rightarrow> None)\<rparr>"
      by auto
    with s Inr show ?thesis by simp
  qed
qed

lemma tarball_url_no_slash:
  assumes "CHR ''/'' \<notin> set pkg"
  shows "tarball_url pkg version =
           ''https://registry.npmjs.org/'' @ pkg @ ''/-/'' @ pkg @ ''-'' @ version @ ''.tgz''"
proof -
  from assms have "indexOf pkg (CHR ''/'') + 1 = 0" by (simp add: indexOf_def)
  moreover have "slice pkg 0 0 = []" by (simp add: slice_def)
  moreover have "slice pkg 0 (int (length pkg)) = pkg" by (simp add: slice_drop)
  ultimately show ?thesis by (simp add: tarball_url_def)
qed

lemma returned_string_arguments:
  "returned (downloadAndExtractPackage env [JStr pkg, JStr version]) =
     and_then (httpsGetAsync env (Url (tarball_url pkg version))) (extract_response env pkg)"
  by (simp add: downloadAndExtractPackage_def Let_def)

lemma extracted_string_arguments:
  "extracted (downloadAndExtractPackage env [JStr pkg, JStr version]) =
     (case outcome (httpsGetAsync env (Url (tarball_url pkg version))) of
        Inl err \<Rightarrow> None
      | Inr response \<Rightarrow>
          (case unpack env (encodeURIComponent pkg) (body response) of
             Inl err \<Rightarrow> None
           | Inr entries \<Rightarrow> Some entries))"
  by (simp add: downloadAndExtractPackage_def Let_def)

lemma httpsGetAsync_resolves:
  "statusCode (snd (https_get env options)) = 200 \<Longrightarrow>
     outcome (httpsGetAsync env options) = Inr (snd (https_get env options))"
  by (cases "https_get env options") (simp add: httpsGetAsync_def)

lemma and_then_rejected:
  "outcome p = Inl e \<Longrightarrow> outcome (and_then p k) = Inl e"
  by (simp add: and_then_def)

lemma and_then_fulfilled:
  "outcome p = Inr v \<Longrightarrow> outcome (and_then p k) = outcome (k v)"
  by (simp add: and_then_def Let_def)

lemma httpsGetAsync_rejects:
  "statusCode (snd (https_get env options)) \<noteq> 200 \<Longrightarrow>
     outcome (httpsGetAsync env options) =
       Inl (Error (''GET '' @ interpolate (property_hostname options) @
                   interpolate (property_path options) @ '' returned '' @
                   show_int (statusCode (snd (https_get env options)))))"
  by (cases "https_get env options") (simp add: httpsGetAsync_def)

lemma hex_digit_mem: "d < 16 \<Longrightarrow> hex_digit d \<in> set ''0123456789ABCDEF''"
  unfolding hex_digit_def by (rule nth_mem) simp

lemma of_char_div_16: "(of_char c :: nat) div 16 < 16"
proof -
  have "(of_char c :: nat) mod 256 < 256" by simp
  then have "(of_char c :: nat) < 256" by (simp only: of_char_mod_256)
  then show ?thesis by linarith
qed

lemma percent_encode_chars:
  "x \<in> set (percent_encode c) \<Longrightarrow> x \<in> set ''%0123456789ABCDEF''"
  using hex_digit_mem[OF of_char_div_16, of c] hex_digit_mem[of "of_char c mod 16"]
  by (auto simp: percent_encode_def)

lemma encodeURIComponent_chars:
  "x \<in> set (encodeURIComponent s) \<Longrightarrow> unreserved x \<or> x \<in> set ''%0123456789ABCDEF''"
  by (auto simp: encodeURIComponent_def dest: percent_encode_chars split: if_splits)

lemma encodeURIComponent_no_dollar: "CHR ''$'' \<notin> set (encodeURIComponent s)"
  using encodeURIComponent_chars[of "CHR ''$''" s] by (auto simp: unreserved_def)

lemma get_substitution_literal:
  "CHR ''$'' \<notin> set t \<Longrightarrow> get_substitution matched preceding following t = t"
  by (induction matched preceding following t rule: get_substitution.induct) auto

lemma map_header_package:
  "map_header (encodeURIComponent pkg) (''package'' @ rest) = encodeURIComponent pkg @ rest"
  by (simp add: map_header_def replace_leading_def startsWith_def
      get_substitution_literal[OF encodeURIComponent_no_dollar])

text \<open>
  A page whose body decompresses to nothing leaves the promise of the scraper pending. When
  that happens to a call of the first chunk of offsets and no other call of that chunk is
  rejected, the join of the chunk never ends and the callback is never called.
\<close>

lemma scrapeMostDepended_empty_page:
  assumes "statusCode (snd (https_get env
        (Options (Some ''www.npmjs.com'') (Some (''/browse/depended?offset='' @ show_int offset))
           [(''accept-encoding'', ''gzip,deflate'')]))) = 200"
    and "gunzip env (body (snd (https_get env
        (Options (Some ''www.npmjs.com'') (Some (''/browse/depended?offset='' @ show_int offset))
           [(''accept-encoding'', ''gzip,deflate'')])))) = Inr []"
  shows "scrapeMostDepended env [JNum offset] = None"
  using assms httpsGetAsync_resolves[OF assms(1)]
  by (simp add: scrapeMostDepended_def scrape_response_def)

lemma empty_page_never_calls_back:
  "scrapeMostDepended empty_page_env [JNum 0] = None \<and> downloadPackages empty_page_env 2 = None"
  by code_simp

lemma downloadPackages_pending:
  assumes hang: "\<exists>offset\<in>set (take 3 (offsets_loop 0 count [])).
                   scrapeMostDepended env [JNum offset] = None"
    and others: "\<forall>offset\<in>set (take 3 (offsets_loop 0 count [])). \<forall>q.
                   scrapeMostDepended env [JNum offset] = Some q \<longrightarrow> \<not> rejected q"
  shows "downloadPackages env count = None"
proof -
  let ?h = "after_all (map (\<lambda>offset. scrapeMostDepended env [JNum offset])
                         (offsets_loop 0 count []))"
  let ?f = "\<lambda>args. seen_until ?h (scrapeMostDepended env args)"
  let ?ps = "map JNum (offsets_loop 0 count [])"
  let ?chunk = "map (\<lambda>param. ?f (arguments param)) (take 3 ?ps)"
  have chunk: "?chunk = map (\<lambda>offset. ?f [JNum offset]) (take 3 (offsets_loop 0 count []))"
    by (simp add: take_map)
  from hang obtain offset where offset: "offset \<in> set (take 3 (offsets_loop 0 count []))"
    "scrapeMostDepended env [JNum offset] = None" by blast
  from offset(1) have "?f [JNum offset] \<in> set ?chunk"
    unfolding chunk set_map by (rule imageI)
  moreover from offset(2) have "rejected (?f [JNum offset])"
    by (simp add: seen_until_def rejected_def)
  ultimately have "\<exists>p\<in>set ?chunk. rejected p" by blast
  from promise_all_rejected[OF this] obtain p where
    p: "p \<in> set ?chunk" "rejected p" "promise_all ?chunk = Inl (projl (outcome p))"
    by blast
  from p(1) obtain o' where o': "o' \<in> set (take 3 (offsets_loop 0 count []))" "p = ?f [JNum o']"
    unfolding chunk by auto
  have "outcome p = Inl None"
  proof (cases "scrapeMostDepended env [JNum o']")
    case None
    with o'(2) show ?thesis by (simp add: seen_until_def)
  next
    case (Some q)
    with others o'(1) have "\<not> rejected q" by blast
    with Some o'(2) p(2) show ?thesis
      by (cases "outcome q") (simp_all add: seen_until_def rejected_def)
  qed
  with p(3) have "promise_all ?chunk = Inl None" by simp
  from step_rejected[of 3 ?f ?ps None, OF _ this]
  have "promiseEach ?ps ?f (Some (int 3)) =
          Some \<lparr>parameters_left = drop 3 ?ps, events = chunk_trace ?f (take 3 ?ps),
                result = Inl None\<rparr>"
    by simp
  then show ?thesis by (simp add: downloadPackages_def)
qed

lemma example_run:
  "downloadPackages example_env 2 =
     Some \<lparr>listing =
             \<lparr>parameters_left = [], events = [Invoke [JNum 0], Settle [JNum 0]],
              result = Inr [JArr [JStr ''lodash'', JStr ''4.17.0''],
                            JArr [JStr ''@scope/name'', JStr ''1.2.3''],
                            JArr [JStr ''bad'', JStr ''1.0.0'']]\<rparr>,
           extraction =
             Some \<lparr>parameters_left = [],
                   events = [Invoke [JStr ''lodash'', JStr ''4.17.0''],
                             Invoke [JStr ''@scope/name'', JStr ''1.2.3''],
                             Settle [JStr ''lodash'', JStr ''4.17.0''],
                             Settle [JStr ''@scope/name'', JStr ''1.2.3'']],
                   result = Inr [JStr ''lodash'', JStr ''@scope/name'']\<rparr>,
           callback_argument = None\<rparr>"
  by code_simp

section \<open>Claims about the pipeline\<close>

text \<open>
  C6. The offsets \<^verbatim>\<open>downloadPackages\<close> generates for \<open>count\<close> are \<open>0, 36, 72, \<dots>\<close> in
  ascending order; their number \<open>n\<close> is \<open>\<lceil>count / 36\<rceil>\<close> (none for \<open>count \<le> 0\<close>), the
  first number with \<open>36 * n \<ge> count\<close>: the loop has not stopped at any smaller number of
  offsets. For \<open>count = 50\<close> the offsets are \<open>0\<close> and \<open>36\<close>. These are the offsets the
  listing stage works on, for every \<open>count\<close>: in a run of \<^verbatim>\<open>downloadPackages\<close> that calls
  the callback, the calls of the scraper that were made, followed by the offsets left in the
  array, are the generated offsets in their order; every one of them has been called when the
  listing stage resolves; and for \<open>count = 50\<close> the calls are the two on \<open>0\<close> and \<open>36\<close>
  whatever the outcome. A run in which no page request stays pending does call the callback.
\<close>

theorem page_offsets:
  "offsets_loop 0 count [] = map (\<lambda>k. 36 * int k) [0..<length (offsets_loop 0 count [])] \<and>
   length (offsets_loop 0 count []) = nat \<lceil>real_of_int count / 36\<rceil> \<and>
   count \<le> 36 * int (length (offsets_loop 0 count [])) \<and>
   (\<forall>k<length (offsets_loop 0 count []). 36 * int k < count) \<and>
   offsets_loop 0 50 [] = [0, 36] \<and>
   (\<forall>d. downloadPackages env count = Some d \<longrightarrow>
      invoked (events (listing d)) @ map arguments (parameters_left (listing d)) =
        map (\<lambda>offset. [JNum offset]) (offsets_loop 0 count []) \<and>
      (\<forall>mostDepended. result (listing d) = Inr mostDepended \<longrightarrow>
         invoked (events (listing d)) =
           map (\<lambda>offset. [JNum offset]) (offsets_loop 0 count []))) \<and>
   (\<forall>d. downloadPackages env 50 = Some d \<longrightarrow>
      invoked (events (listing d)) = [[JNum 0], [JNum 36]]) \<and>
   ((\<forall>offset\<in>set (offsets_loop 0 count []). scrapeMostDepended env [JNum offset] \<noteq> None) \<longrightarrow>
      (\<exists>d. downloadPackages env count = Some d))"
proof -
  have len: "length (offsets_loop 0 count []) = nat ((count + 35) div 36)"
    by (simp add: offsets_loop_eq)
  have "\<lceil>real_of_int count / real_of_int 36\<rceil> = - (- count div 36)"
    by (rule ceiling_divide_eq_div)
  then have "\<lceil>real_of_int count / 36\<rceil> = - (- count div 36)"
    by (simp only: of_int_numeral)
  also have "\<dots> = (count + 35) div 36" by linarith
  finally have "\<lceil>real_of_int count / 36\<rceil> = (count + 35) div 36" .
  then have ceil: "length (offsets_loop 0 count []) = nat \<lceil>real_of_int count / 36\<rceil>"
    using len by simp
  have list: "offsets_loop 0 count [] =
          map (\<lambda>k. 36 * int k) [0..<length (offsets_loop 0 count [])]"
    unfolding len by (simp add: offsets_loop_eq)
  have covers: "count \<le> 36 * int (length (offsets_loop 0 count []))"
    unfolding len by linarith
  have least: "\<forall>k<length (offsets_loop 0 count []). 36 * int k < count"
    unfolding len by (intro allI impI) linarith
  have fifty: "offsets_loop 0 50 [] = [0, 36]"
    by (simp add: offsets_loop_eq upt_conv_Cons)
  have calls: "\<forall>d. downloadPackages env count = Some d \<longrightarrow>
      invoked (events (listing d)) @ map arguments (parameters_left (listing d)) =
        map (\<lambda>offset. [JNum offset]) (offsets_loop 0 count []) \<and>
      (\<forall>mostDepended. result (listing d) = Inr mostDepended \<longrightarrow>
         invoked (events (listing d)) =
           map (\<lambda>offset. [JNum offset]) (offsets_loop 0 count []))"
  proof (intro allI impI)
    fix d assume d: "downloadPackages env count = Some d"
    let ?ps = "map JNum (offsets_loop 0 count [])"
    let ?f = "\<lambda>args. seen_until
          (after_all (map (\<lambda>offset. scrapeMostDepended env [JNum offset])
                        (offsets_loop 0 count [])))
          (scrapeMostDepended env args)"
    have run: "promiseEach ?ps ?f (Some (int 3)) = Some (listing d)"
      using downloadPackages_listing[OF d] by simp
    have args: "map arguments ?ps = map (\<lambda>offset. [JNum offset]) (offsets_loop 0 count [])"
      by simp
    from promiseEach_consumes[OF _ run] obtain k where
      k: "invoked (events (listing d)) = map arguments (take k ?ps)"
         "parameters_left (listing d) = drop k ?ps"
      by auto
    have "invoked (events (listing d)) @ map arguments (parameters_left (listing d)) =
            map arguments (take k ?ps @ drop k ?ps)"
      unfolding k by (simp only: map_append)
    then have joined: "invoked (events (listing d)) @ map arguments (parameters_left (listing d)) =
            map (\<lambda>offset. [JNum offset]) (offsets_loop 0 count [])"
      using args by simp
    have "\<forall>out. result (listing d) = Inr out \<longrightarrow> invoked (events (listing d)) = map arguments ?ps"
      using promiseEach_invoked[OF _ run] by simp
    with joined args
    show "invoked (events (listing d)) @ map arguments (parameters_left (listing d)) =
        map (\<lambda>offset. [JNum offset]) (offsets_loop 0 count []) \<and>
      (\<forall>mostDepended. result (listing d) = Inr mostDepended \<longrightarrow>
         invoked (events (listing d)) =
           map (\<lambda>offset. [JNum offset]) (offsets_loop 0 count []))"
      by simp
  qed
  have two: "\<forall>d. downloadPackages env 50 = Some d \<longrightarrow>
      invoked (events (listing d)) = [[JNum 0], [JNum 36]]"
  proof (intro allI impI)
    fix d assume d: "downloadPackages env 50 = Some d"
    let ?f = "\<lambda>args. seen_until
          (after_all (map (\<lambda>offset. scrapeMostDepended env [JNum offset])
                        (offsets_loop 0 50 [])))
          (scrapeMostDepended env args)"
    have run: "promiseEach [JNum 0, JNum 36] ?f (Some (int 3)) = Some (listing d)"
      using downloadPackages_listing[OF d] fifty by simp
    have "events (listing d) = chunk_trace ?f [JNum 0, JNum 36]"
      using single_chunk[of 3 "[JNum 0, JNum 36]" ?f "listing d"] run by simp
    then show "invoked (events (listing d)) = [[JNum 0], [JNum 36]]"
      by (simp add: invoked_chunk_trace)
  qed
  have ends: "(\<forall>offset\<in>set (offsets_loop 0 count []). scrapeMostDepended env [JNum offset] \<noteq> None)
      \<longrightarrow> (\<exists>d. downloadPackages env count = Some d)"
    using downloadPackages_ends[of count env] by blast
  from list ceil covers least fifty calls two ends show ?thesis by blast
qed

theorem page_offsets_witness:
  "offsets_loop 0 73 [] = [0, 36, 72] \<and> length (offsets_loop 0 73 []) = nat \<lceil>real_of_int 73 / 36\<rceil>
   \<and> (73::int) \<le> 36 * 3 \<and> 36 * int 2 < 73 \<and>
   (\<exists>d. downloadPackages example_env 73 = Some d \<and>
        invoked (events (listing d)) = [[JNum 0], [JNum 36], [JNum 72]])"
proof -
  have offsets: "offsets_loop 0 73 [] = [0, 36, 72]"
    by (simp add: offsets_loop_eq upt_conv_Cons)
  have "scrapeMostDepended example_env [JNum 0] \<noteq> None"
    "scrapeMostDepended example_env [JNum 36] \<noteq> None"
    "scrapeMostDepended example_env [JNum 72] \<noteq> None"
    by code_simp+
  with offsets obtain d where d: "downloadPackages example_env 73 = Some d"
    using page_offsets[of 73 example_env] by auto
  have "length [JNum 0, JNum 36, JNum 72] \<le> 3" by simp
  have "invoked (events (listing d)) @ map arguments (parameters_left (listing d)) =
          [[JNum 0], [JNum 36], [JNum 72]]"
    using page_offsets[of 73 example_env] d offsets by simp
  moreover have "parameters_left (listing d) = []"
  proof -
    let ?f = "\<lambda>args. seen_until
          (after_all (map (\<lambda>offset. scrapeMostDepended example_env [JNum offset])
                        (offsets_loop 0 73 [])))
          (scrapeMostDepended example_env args)"
    have run: "promiseEach [JNum 0, JNum 36, JNum 72] ?f (Some (int 3)) = Some (listing d)"
      using downloadPackages_listing[OF d] offsets by simp
    from promiseEach_consumes[OF _ run] obtain k where
      k: "invoked (events (listing d)) = map arguments (take k [JNum 0, JNum 36, JNum 72])"
         "parameters_left (listing d) = drop k [JNum 0, JNum 36, JNum 72]"
      by auto
    have "events (listing d) = chunk_trace ?f [JNum 0, JNum 36, JNum 72]"
      using single_chunk[of 3 "[JNum 0, JNum 36, JNum 72]" ?f "listing d"] run by simp
    then have "invoked (events (listing d)) = [[JNum 0], [JNum 36], [JNum 72]]"
      by (simp add: invoked_chunk_trace)
    with k(1) have "3 \<le> k" by (cases k rule: nat.exhaust) (auto simp: take_Cons split: nat.splits)
    with k(2) show ?thesis by simp
  qed
  ultimately have "invoked (events (listing d)) = [[JNum 0], [JNum 36], [JNum 72]]" by simp
  with offsets d show ?thesis using page_offsets[of 73 example_env] by simp
qed

text \<open>
  C4. The promise \<^verbatim>\<open>downloadAndExtractPackage(pkg, version)\<close> returns is the fetch of one URL
  on the registry host, continued by the extraction. For a package name \<^verbatim>\<open>@scope/name\<close> (the
  first \<^verbatim>\<open>/\<close> is the one after \<open>scope\<close>), \<open>org\<close> is the prefix up to and including that
  \<^verbatim>\<open>/\<close> and \<open>name\<close> the remainder, and the URL fetched is
  \<^verbatim>\<open>{org}{name}/-/{name}-{version}.tgz\<close> on that host; for a name that does not start with
  \<^verbatim>\<open>@\<close> it is \<^verbatim>\<open>{pkg}/-/{pkg}-{version}.tgz\<close>, and so it is for every name without a \<^verbatim>\<open>/\<close>
  (a name that starts with \<^verbatim>\<open>@\<close> and has no \<^verbatim>\<open>/\<close> is treated like an unscoped one:
  \<^verbatim>\<open>indexOf\<close> is \<open>-1\<close> and \<open>org\<close> is empty). \<^verbatim>\<open>@scope/name\<close> at version \<^verbatim>\<open>1.2.3\<close> is
  fetched from \<^verbatim>\<open>@scope/name/-/name-1.2.3.tgz\<close>, \<^verbatim>\<open>lodash\<close> at \<^verbatim>\<open>4.17.0\<close> from
  \<^verbatim>\<open>lodash/-/lodash-4.17.0.tgz\<close>.
\<close>

theorem archive_url_rule:
  "(CHR ''/'' \<notin> set scope \<longrightarrow>
      returned (downloadAndExtractPackage env
                  [JStr (CHR ''@'' # scope @ CHR ''/'' # name), JStr version]) =
        and_then
          (httpsGetAsync env
             (Url (''https://registry.npmjs.org/'' @ (CHR ''@'' # scope @ ''/'') @ name @ ''/-/'' @
                   name @ ''-'' @ version @ ''.tgz'')))
          (extract_response env (CHR ''@'' # scope @ CHR ''/'' # name))) \<and>
   (\<not> startsWith pkg ''@'' \<longrightarrow>
      returned (downloadAndExtractPackage env [JStr pkg, JStr version]) =
        and_then
          (httpsGetAsync env
             (Url (''https://registry.npmjs.org/'' @ pkg @ ''/-/'' @ pkg @ ''-'' @ version @
                   ''.tgz'')))
          (extract_response env pkg)) \<and>
   (CHR ''/'' \<notin> set pkg \<longrightarrow>
      returned (downloadAndExtractPackage env [JStr pkg, JStr version]) =
        and_then
          (httpsGetAsync env
             (Url (''https://registry.npmjs.org/'' @ pkg @ ''/-/'' @ pkg @ ''-'' @ version @
                   ''.tgz'')))
          (extract_response env pkg)) \<and>
   returned (downloadAndExtractPackage env [JStr ''@scope/name'', JStr ''1.2.3'']) =
     and_then (httpsGetAsync env (Url ''https://registry.npmjs.org/@scope/name/-/name-1.2.3.tgz''))
       (extract_response env ''@scope/name'') \<and>
   returned (downloadAndExtractPackage env [JStr ''lodash'', JStr ''4.17.0'']) =
     and_then (httpsGetAsync env (Url ''https://registry.npmjs.org/lodash/-/lodash-4.17.0.tgz''))
       (extract_response env ''lodash'')"
proof -
  have scoped: "tarball_url ''@scope/name'' ''1.2.3'' =
     ''https://registry.npmjs.org/@scope/name/-/name-1.2.3.tgz''"
    using tarball_url_scoped[of "''scope''" "''name''" "''1.2.3''"] by simp
  have unscoped: "tarball_url ''lodash'' ''4.17.0'' =
     ''https://registry.npmjs.org/lodash/-/lodash-4.17.0.tgz''"
    using tarball_url_unscoped[of "''lodash''" "''4.17.0''"] by (simp add: startsWith_def)
  show ?thesis
    unfolding returned_string_arguments
    using scoped unscoped tarball_url_scoped[of scope name version]
      tarball_url_unscoped[of pkg version] tarball_url_no_slash[of pkg version]
    by simp
qed

theorem archive_url_rule_witness:
  "CHR ''/'' \<notin> set ''angular'' \<and>
   returned (downloadAndExtractPackage example_env [JStr ''@angular/core'', JStr ''2.0.0'']) =
     and_then
       (httpsGetAsync example_env (Url ''https://registry.npmjs.org/@angular/core/-/core-2.0.0.tgz''))
       (extract_response example_env ''@angular/core'') \<and>
   \<not> startsWith ''react'' ''@'' \<and> CHR ''/'' \<notin> set ''react'' \<and>
   returned (downloadAndExtractPackage example_env [JStr ''react'', JStr ''18.0.0'']) =
     Promise 102 (Inr (JStr ''react''))"
proof -
  have scoped: "CHR ''/'' \<notin> set ''angular'' \<and>
   returned (downloadAndExtractPackage example_env [JStr ''@angular/core'', JStr ''2.0.0'']) =
     and_then
       (httpsGetAsync example_env (Url ''https://registry.npmjs.org/@angular/core/-/core-2.0.0.tgz''))
       (extract_response example_env ''@angular/core'')"
    using archive_url_rule[of "''angular''" example_env "''core''" "''2.0.0''" "''react''"]
    by simp
  have unscoped: "\<not> startsWith ''react'' ''@'' \<and> CHR ''/'' \<notin> set ''react'' \<and>
   returned (downloadAndExtractPackage example_env [JStr ''react'', JStr ''18.0.0'']) =
     and_then
       (httpsGetAsync example_env (Url ''https://registry.npmjs.org/react/-/react-18.0.0.tgz''))
       (extract_response example_env ''react'')"
    using archive_url_rule[of "''angular''" example_env "''core''" "''18.0.0''" "''react''"]
    by (simp add: startsWith_def)
  have "and_then
       (httpsGetAsync example_env (Url ''https://registry.npmjs.org/react/-/react-18.0.0.tgz''))
       (extract_response example_env ''react'') = Promise 102 (Inr (JStr ''react''))"
    by code_simp
  with scoped unscoped show ?thesis by (simp only: simp_thms)
qed

text \<open>
  C5, as amended. When the archive of \<open>pkg\<close> is fetched and unpacked to its end, the entries
  extracted are the entries of the archive, each under the name the \<^verbatim>\<open>map\<close> callback gives
  it, and the call resolves with \<open>pkg\<close>. The callback replaces a leading \<^verbatim>\<open>package\<close> by
  \<^verbatim>\<open>encodeURIComponent(pkg)\<close> (the encoded name has no \<^verbatim>\<open>$\<close>, so the replacement is
  literal). The entry \<^verbatim>\<open>package/lib/index.js\<close> of \<^verbatim>\<open>@scope/name\<close> is renamed
  \<^verbatim>\<open>%40scope%2Fname/lib/index.js\<close> and written to
  \<^verbatim>\<open>./packages/%40scope%2Fname/lib/index.js\<close>, which is not below \<^verbatim>\<open>./packages/package/\<close>.
  That no entry at all is written below \<^verbatim>\<open>./packages/package/\<close> does not hold (the
  counterexample below) and is not part of the statement.
\<close>

theorem extraction_remaps_wrapper:
  "(statusCode (snd (https_get env (Url (tarball_url pkg version)))) = 200 \<and>
    gunzip env (body (snd (https_get env (Url (tarball_url pkg version))))) = Inr tarball \<and>
    untar env tarball = Inr entries \<longrightarrow>
      extracted (downloadAndExtractPackage env [JStr pkg, JStr version]) =
        Some (map (\<lambda>(name, content). (map_header (encodeURIComponent pkg) name, content))
                entries) \<and>
      outcome (returned (downloadAndExtractPackage env [JStr pkg, JStr version])) =
        Inr (JStr pkg)) \<and>
   map_header (encodeURIComponent pkg) (''package'' @ rest) = encodeURIComponent pkg @ rest \<and>
   map_header (encodeURIComponent ''@scope/name'') ''package/lib/index.js'' =
     ''%40scope%2Fname/lib/index.js'' \<and>
   extracted_path ''@scope/name'' ''package/lib/index.js'' =
     ''./packages/%40scope%2Fname/lib/index.js'' \<and>
   \<not> startsWith (extracted_path ''@scope/name'' ''package/lib/index.js'') ''./packages/package/''"
proof -
  have call: "statusCode (snd (https_get env (Url (tarball_url pkg version)))) = 200 \<and>
    gunzip env (body (snd (https_get env (Url (tarball_url pkg version))))) = Inr tarball \<and>
    untar env tarball = Inr entries \<longrightarrow>
      extracted (downloadAndExtractPackage env [JStr pkg, JStr version]) =
        Some (map (\<lambda>(name, content). (map_header (encodeURIComponent pkg) name, content))
                entries) \<and>
      outcome (returned (downloadAndExtractPackage env [JStr pkg, JStr version])) =
        Inr (JStr pkg)"
  proof (intro impI)
    let ?request = "Url (tarball_url pkg version)"
    let ?response = "snd (https_get env ?request)"
    assume a: "statusCode ?response = 200 \<and> gunzip env (body ?response) = Inr tarball \<and>
               untar env tarball = Inr entries"
    then have fetched: "outcome (httpsGetAsync env ?request) = Inr ?response"
      using httpsGetAsync_resolves[of env ?request] by simp
    from a have unpacked: "unpack env (encodeURIComponent pkg) (body ?response) =
        Inr (map (\<lambda>(name, content). (map_header (encodeURIComponent pkg) name, content)) entries)"
      by (simp add: unpack_def)
    have "extracted (downloadAndExtractPackage env [JStr pkg, JStr version]) =
        Some (map (\<lambda>(name, content). (map_header (encodeURIComponent pkg) name, content))
                entries)"
      unfolding extracted_string_arguments by (simp add: fetched unpacked)
    moreover have "outcome (returned (downloadAndExtractPackage env [JStr pkg, JStr version])) =
        Inr (JStr pkg)"
      unfolding returned_string_arguments
      by (simp add: and_then_fulfilled[OF fetched] extract_response_def unpacked)
    ultimately show "extracted (downloadAndExtractPackage env [JStr pkg, JStr version]) =
        Some (map (\<lambda>(name, content). (map_header (encodeURIComponent pkg) name, content))
                entries) \<and>
      outcome (returned (downloadAndExtractPackage env [JStr pkg, JStr version])) =
        Inr (JStr pkg)"
      by simp
  qed
  have name: "map_header (encodeURIComponent ''@scope/name'') ''package/lib/index.js'' =
     ''%40scope%2Fname/lib/index.js''"
    by code_simp
  have path: "extracted_path ''@scope/name'' ''package/lib/index.js'' =
     ''./packages/%40scope%2Fname/lib/index.js''"
    by code_simp
  have "\<not> startsWith (extracted_path ''@scope/name'' ''package/lib/index.js'')
           ''./packages/package/''"
    unfolding path by (simp add: startsWith_def)
  with call name path show ?thesis by (simp only: map_header_package simp_thms)
qed

theorem extraction_remaps_wrapper_witness:
  "extracted (downloadAndExtractPackage example_env [JStr ''@scope/name'', JStr ''1.2.3'']) =
     Some [(''%40scope%2Fname/index.js'',
            ''https://registry.npmjs.org/@scope/name/-/name-1.2.3.tgz'')] \<and>
   outcome (returned (downloadAndExtractPackage example_env [JStr ''@scope/name'', JStr ''1.2.3'']))
     = Inr (JStr ''@scope/name'') \<and>
   map_header (encodeURIComponent ''@angular/core'') ''package/package.json'' =
     ''%40angular%2Fcore/package.json''"
proof -
  let ?url = "''https://registry.npmjs.org/@scope/name/-/name-1.2.3.tgz''"
  have url: "tarball_url ''@scope/name'' ''1.2.3'' = ?url"
    by code_simp
  have enc: "encodeURIComponent ''@angular/core'' = ''%40angular%2Fcore''"
    by code_simp
  have name: "map_header (encodeURIComponent ''@scope/name'') ''package/index.js'' =
                ''%40scope%2Fname/index.js''"
    by code_simp
  have "statusCode (snd (https_get example_env (Url ?url))) = 200"
    "gunzip example_env (body (snd (https_get example_env (Url ?url)))) = Inr ?url"
    "untar example_env ?url = Inr [(''package/index.js'', ?url)]"
    by (simp_all add: example_env_def)
  with url have
    "extracted (downloadAndExtractPackage example_env [JStr ''@scope/name'', JStr ''1.2.3'']) =
       Some (map (\<lambda>(name, content). (map_header (encodeURIComponent ''@scope/name'') name, content))
               [(''package/index.js'', ?url)]) \<and>
     outcome (returned (downloadAndExtractPackage example_env
                          [JStr ''@scope/name'', JStr ''1.2.3''])) = Inr (JStr ''@scope/name'')"
    using extraction_remaps_wrapper[of example_env "''@scope/name''" "''1.2.3''" ?url
        "[(''package/index.js'', ?url)]" "[]"]
    by simp
  then have first:
    "extracted (downloadAndExtractPackage example_env [JStr ''@scope/name'', JStr ''1.2.3'']) =
       Some [(''%40scope%2Fname/index.js'', ?url)] \<and>
     outcome (returned (downloadAndExtractPackage example_env
                          [JStr ''@scope/name'', JStr ''1.2.3''])) = Inr (JStr ''@scope/name'')"
    by (simp add: name)
  have "map_header (encodeURIComponent ''@angular/core'') (''package'' @ ''/package.json'') =
          encodeURIComponent ''@angular/core'' @ ''/package.json''"
    using extraction_remaps_wrapper[of example_env "''@angular/core''" "''1.2.3''"
        "[]" "[]" "''/package.json''"]
    by (simp only:)
  then have "map_header (encodeURIComponent ''@angular/core'') ''package/package.json'' =
     ''%40angular%2Fcore/package.json''"
    by (simp add: enc)
  with first show ?thesis by simp
qed

text \<open>
  The archive of the package named \<^verbatim>\<open>package\<close>: its entry \<^verbatim>\<open>package/index.js\<close> keeps its
  name and is written to \<^verbatim>\<open>./packages/package/index.js\<close>. Other names lead there as well:
  an entry whose name does not begin with \<^verbatim>\<open>package\<close>, such as \<^verbatim>\<open>./package/index.js\<close>, is
  not renamed for any package, and for the package named \<^verbatim>\<open>.\<close> the entry
  \<^verbatim>\<open>package/package/index.js\<close> is renamed \<^verbatim>\<open>./package/index.js\<close>.
\<close>

theorem package_named_package_counterexample:
  "extracted (downloadAndExtractPackage example_env [JStr ''package'', JStr ''1.0.0'']) =
     Some [(''package/index.js'', ''https://registry.npmjs.org/package/-/package-1.0.0.tgz'')] \<and>
   extracted_path ''package'' ''package/index.js'' = ''./packages/package/index.js'' \<and>
   map_header (encodeURIComponent ''lodash'') ''./package/index.js'' = ''./package/index.js'' \<and>
   map_header (encodeURIComponent ''.'') ''package/package/index.js'' = ''./package/index.js''"
  by code_simp

text \<open>
  C9. A response whose status is not 200 rejects the fetch with an \<^verbatim>\<open>Error\<close> whose message
  is built from \<^verbatim>\<open>options.hostname\<close>, \<^verbatim>\<open>options.path\<close> and the status. The listing fetch
  passes an options object, and its error names host, path and status. The archive fetch
  passes a URL string, which has neither property: its error reads
  \<^verbatim>\<open>GET undefinedundefined returned <status>\<close> whatever the package and version are.
\<close>

theorem fetch_error_message:
  "(statusCode (snd (https_get env
        (Options (Some ''www.npmjs.com'') (Some (''/browse/depended?offset='' @ show_int offset))
           [(''accept-encoding'', ''gzip,deflate'')]))) = status \<and> status \<noteq> 200 \<longrightarrow>
      map_option outcome (scrapeMostDepended env [JNum offset]) =
        Some (Inl (Error (''GET www.npmjs.com/browse/depended?offset='' @ show_int offset @
                          '' returned '' @ show_int status)))) \<and>
   (statusCode (snd (https_get env (Url (tarball_url pkg version)))) = status \<and> status \<noteq> 200 \<longrightarrow>
      outcome (returned (downloadAndExtractPackage env [JStr pkg, JStr version])) =
        Inl (Error (''GET undefinedundefined returned '' @ show_int status)))"
proof (intro conjI impI)
  let ?options = "Options (Some ''www.npmjs.com'')
                    (Some (''/browse/depended?offset='' @ show_int offset))
                    [(''accept-encoding'', ''gzip,deflate'')]"
  assume "statusCode (snd (https_get env ?options)) = status \<and> status \<noteq> 200"
  then have "outcome (httpsGetAsync env ?options) =
       Inl (Error (''GET www.npmjs.com/browse/depended?offset='' @ show_int offset @
                   '' returned '' @ show_int status))"
    using httpsGetAsync_rejects[of env ?options] by simp
  then show "map_option outcome (scrapeMostDepended env [JNum offset]) =
        Some (Inl (Error (''GET www.npmjs.com/browse/depended?offset='' @ show_int offset @
                          '' returned '' @ show_int status)))"
    unfolding scrapeMostDepended_def by simp
next
  assume "statusCode (snd (https_get env (Url (tarball_url pkg version)))) = status \<and>
          status \<noteq> 200"
  then have "outcome (httpsGetAsync env (Url (tarball_url pkg version))) =
       Inl (Error (''GET undefinedundefined returned '' @ show_int status))"
    using httpsGetAsync_rejects[of env "Url (tarball_url pkg version)"] by simp
  then show "outcome (returned (downloadAndExtractPackage env [JStr pkg, JStr version])) =
        Inl (Error (''GET undefinedundefined returned '' @ show_int status))"
    unfolding returned_string_arguments by (simp add: and_then_rejected)
qed

theorem fetch_error_message_witness:
  "outcome (returned (downloadAndExtractPackage example_env [JStr ''bad'', JStr ''1.0.0''])) =
     Inl (Error ''GET undefinedundefined returned 404'')"
proof -
  have "tarball_url ''bad'' ''1.0.0'' = ''https://registry.npmjs.org/bad/-/bad-1.0.0.tgz''"
    by code_simp
  moreover have "show_int 404 = ''404''" by code_simp
  ultimately show ?thesis
    using fetch_error_message[of example_env 0 404 "''bad''" "''1.0.0''"]
    by (simp add: example_env_def)
qed

text \<open>
  C2. In a run of \<^verbatim>\<open>downloadPackages\<close> whose listing stage resolves to the list
  \<open>mostDepended\<close>, the extraction stage is \<^verbatim>\<open>promiseEach\<close> run on the first \<open>count\<close>
  entries of that list (all of them when there are fewer, none for \<open>count \<le> 0\<close>), in the
  same order: the calls of \<^verbatim>\<open>downloadAndExtractPackage\<close> are made on a prefix of these
  entries, one after the other in list order; the calls made, followed by the entries left in
  the array, are these entries; and all of them are called when the run reports success. A
  run in which no page request stays pending does end with a call of the callback.
\<close>

theorem downloadPackages_truncates:
  "(\<forall>d mostDepended.
      downloadPackages env count = Some d \<and> result (listing d) = Inr mostDepended \<longrightarrow>
        fst (splice mostDepended 0 count) = take (nat count) mostDepended \<and>
        (\<exists>x k. extraction d = Some x \<and>
           promiseEach (take (nat count) mostDepended)
             (\<lambda>args. returned (downloadAndExtractPackage env args)) (Some 3) = Some x \<and>
           invoked (events x) = map arguments (take k (take (nat count) mostDepended)) \<and>
           invoked (events x) @ map arguments (parameters_left x) =
             map arguments (take (nat count) mostDepended) \<and>
           (callback_argument d = None \<longrightarrow>
              invoked (events x) = map arguments (take (nat count) mostDepended)))) \<and>
   ((\<forall>offset\<in>set (offsets_loop 0 count []). scrapeMostDepended env [JNum offset] \<noteq> None) \<longrightarrow>
      (\<exists>d. downloadPackages env count = Some d))"
proof -
  have "\<forall>d mostDepended.
      downloadPackages env count = Some d \<and> result (listing d) = Inr mostDepended \<longrightarrow>
        fst (splice mostDepended 0 count) = take (nat count) mostDepended \<and>
        (\<exists>x k. extraction d = Some x \<and>
           promiseEach (take (nat count) mostDepended)
             (\<lambda>args. returned (downloadAndExtractPackage env args)) (Some 3) = Some x \<and>
           invoked (events x) = map arguments (take k (take (nat count) mostDepended)) \<and>
           invoked (events x) @ map arguments (parameters_left x) =
             map arguments (take (nat count) mostDepended) \<and>
           (callback_argument d = None \<longrightarrow>
              invoked (events x) = map arguments (take (nat count) mostDepended)))"
  proof (intro allI impI)
    fix d mostDepended
    assume a: "downloadPackages env count = Some d \<and> result (listing d) = Inr mostDepended"
    then have d: "downloadPackages env count = Some d" by simp
    let ?input = "take (nat count) mostDepended"
    from downloadPackages_listing[OF d] a obtain x where
      x: "promiseEach ?input
            (\<lambda>args. returned (downloadAndExtractPackage env args)) (Some (int 3)) = Some x"
      and ex: "extraction d = Some x"
      and cb: "callback_argument d = (case result x of Inl err \<Rightarrow> Some err | Inr ds \<Rightarrow> None)"
      by auto
    from promiseEach_consumes[OF _ x]
    obtain k where k: "invoked (events x) = map arguments (take k ?input)"
      and left: "parameters_left x = drop k ?input"
      by auto
    have "invoked (events x) @ map arguments (parameters_left x) =
            map arguments (take k ?input @ drop k ?input)"
      unfolding k left by (simp only: map_append)
    then have joined: "invoked (events x) @ map arguments (parameters_left x) =
            map arguments ?input"
      by (simp only: append_take_drop_id)
    have all: "\<forall>out. result x = Inr out \<longrightarrow> invoked (events x) = map arguments ?input"
      using promiseEach_invoked[OF _ x] by simp
    have "callback_argument d = None \<longrightarrow> invoked (events x) = map arguments ?input"
      using cb all by (cases "result x") auto
    with x ex k joined show "fst (splice mostDepended 0 count) = ?input \<and>
        (\<exists>x k. extraction d = Some x \<and>
           promiseEach ?input
             (\<lambda>args. returned (downloadAndExtractPackage env args)) (Some 3) = Some x \<and>
           invoked (events x) = map arguments (take k ?input) \<and>
           invoked (events x) @ map arguments (parameters_left x) = map arguments ?input \<and>
           (callback_argument d = None \<longrightarrow> invoked (events x) = map arguments ?input))"
      by (auto simp: splice_head)
  qed
  then show ?thesis using downloadPackages_ends[of count env] by blast
qed

theorem downloadPackages_truncates_witness:
  "scrapeMostDepended example_env [JNum 0] \<noteq> None \<and>
   (\<exists>d. downloadPackages example_env 2 = Some d \<and>
     result (listing d) = Inr [JArr [JStr ''lodash'', JStr ''4.17.0''],
                               JArr [JStr ''@scope/name'', JStr ''1.2.3''],
                               JArr [JStr ''bad'', JStr ''1.0.0'']] \<and>
     (\<exists>x. extraction d = Some x \<and>
          invoked (events x) = [[JStr ''lodash'', JStr ''4.17.0''],
                                [JStr ''@scope/name'', JStr ''1.2.3'']]) \<and>
     callback_argument d = None)"
proof -
  have "scrapeMostDepended example_env [JNum 0] \<noteq> None" by code_simp
  then show ?thesis
    using downloadPackages_truncates[of example_env 2]
    by (auto simp: example_run)
qed

end
